theory Spec2Isabelle
  imports Main "HOL-Library.Word" "HOL-Library.Char_ord" "HOL-Library.List_Lexorder"
begin

unbundle bit_operations_syntax

section \<open>Errors and outcomes\<close>

text \<open>
  Go functions of the repository return an \<open>error\<close> value or panic at run time (index out
  of range, slice bounds out of range). An outcome is a value, an error, or a panic.
  \<open>ChecksumMismatch\<close> stands for both \<open>errors.New("checksum mismatch")\<close> of \<open>Decode\<close> and
  \<open>errChecksumMismatch\<close> of the reader; \<open>EOF\<close> and \<open>UnexpectedEOF\<close> are \<open>io.EOF\<close> and
  \<open>io.ErrUnexpectedEOF\<close>; \<open>CallbackError\<close> is any error made by a replay callback.
\<close>

datatype error =
  RecordTooShort | RecordTruncated | ChecksumMismatch | EOF | UnexpectedEOF | CallbackError string

datatype 'a result = Ok 'a | Err error | Panic

section \<open>Arena (internal/memtable/arena.go)\<close>

text \<open>
  The arena is a buffer and a write offset. No function of the repository reads the
  buffer except through a slice that \<open>Alloc\<close> handed out, and \<open>Alloc\<close> never hands out a
  byte twice, so the arena's state is the length of its buffer and its offset; the bytes
  of a handed-out slice are held by the slice's owner (the \<open>val\<close> field of an entry).
  Go's \<open>int\<close> is a \<open>nat\<close> here: both numbers count bytes of memory in use.
\<close>

record Arena =
  buf_len :: nat
  off :: nat

definition NewArena :: "nat \<Rightarrow> Arena" where
  "NewArena capacity = \<lparr>buf_len = capacity, off = 0\<rparr>"

text \<open>The loop \<open>for cap < need { cap *= 2 }\<close>; it is entered with \<open>cap > 0\<close> only.\<close>

function grow :: "nat \<Rightarrow> nat \<Rightarrow> nat" where
  "grow c need = (if c < need \<and> 0 < c then grow (c * 2) need else c)"
  by pat_completeness auto
termination
  by (relation "measure (\<lambda>(c, need). need - c)") auto

declare grow.simps [simp del]

definition ensure :: "nat \<Rightarrow> Arena \<Rightarrow> Arena" where
  "ensure n a =
     (if int n \<le> int (buf_len a) - int (off a) then a
      else a\<lparr>buf_len := grow (if buf_len a = 0 then 1024 else buf_len a) (off a + n)\<rparr>)"

text \<open>\<open>Alloc\<close> returns the bounds \<open>[start, off)\<close> of the slice it hands out.\<close>

definition Alloc :: "nat \<Rightarrow> Arena \<Rightarrow> (nat \<times> nat) \<times> Arena" where
  "Alloc n a =
     (let a1 = ensure n a;
          start = off a1;
          a2 = a1\<lparr>off := off a1 + n\<rparr>
      in ((start, off a2), a2))"

text \<open>\<open>Copy\<close> returns the bytes of the new slice, which are those of \<open>src\<close>.\<close>

definition Copy :: "string \<Rightarrow> Arena \<Rightarrow> string \<times> Arena" where
  "Copy src a = (let (b, a') = Alloc (length src) a in (src, a'))"

section \<open>Skiplist (internal/memtable/arena.go)\<close>

text \<open>
  Keys are Go strings, values are byte slices: both are \<open>string\<close>, a list of 8-bit
  characters, compared byte by byte (\<open>Char_ord\<close>, \<open>List_Lexorder\<close>) as Go compares
  strings. A \<open>nil\<close> value (a tombstone's) is the empty list. Locks are left out: the
  model is the sequential behaviour of one call at a time.
\<close>

record entry =
  seq :: "64 word"
  val :: string
  deleted :: bool

record Skiplist =
  entries :: "string \<rightharpoonup> entry"
  keys :: "string list"
  arena :: "Arena option"

definition NewSkiplist :: "Arena option \<Rightarrow> Skiplist" where
  "NewSkiplist a = \<lparr>entries = Map.empty, keys = [], arena = a\<rparr>"

definition clone :: "string \<Rightarrow> string" where
  "clone bz = bz"

text \<open>
  \<open>sort.SearchStrings\<close> of Go's library: the binary search of \<open>sort.Search\<close> for the
  smallest index whose string is not below \<open>x\<close>.
\<close>

function Search :: "string list \<Rightarrow> string \<Rightarrow> nat \<Rightarrow> nat \<Rightarrow> nat" where
  "Search a x i j =
     (if i < j then
        (let h = (i + j) div 2
         in if \<not> x \<le> a ! h then Search a x (h + 1) j else Search a x i h)
      else i)"
  by pat_completeness auto
termination
  by (relation "measure (\<lambda>(a, x, i, j). j - i)") auto

declare Search.simps [simp del]

definition SearchStrings :: "string list \<Rightarrow> string \<Rightarrow> nat" where
  "SearchStrings a x = Search a x 0 (length a)"

definition keyPresent :: "string list \<Rightarrow> string \<Rightarrow> bool" where
  "keyPresent ks k = (let i = SearchStrings ks k in i < length ks \<and> ks ! i = k)"

text \<open>\<open>sort.Strings\<close> of Go's library sorts in increasing order.\<close>

definition sortKeys :: "string list \<Rightarrow> string list" where
  "sortKeys ks = sort ks"

text \<open>The guard shared by \<open>Put\<close> and \<open>Delete\<close>: an entry exists and \<open>seq <= cur.seq\<close>.\<close>

definition seq_rejected :: "Skiplist \<Rightarrow> string \<Rightarrow> 64 word \<Rightarrow> bool" where
  "seq_rejected s k sq = (case entries s k of Some cur \<Rightarrow> sq \<le> seq cur | None \<Rightarrow> False)"

definition track_key :: "string \<Rightarrow> Skiplist \<Rightarrow> Skiplist" where
  "track_key k s =
     (if \<not> keyPresent (keys s) k then s\<lparr>keys := sortKeys (keys s @ [k])\<rparr> else s)"

definition Skiplist_Put :: "string \<Rightarrow> string \<Rightarrow> 64 word \<Rightarrow> Skiplist \<Rightarrow> error option \<times> Skiplist" where
  "Skiplist_Put k v sq s =
     (if seq_rejected s k sq then (None, s)
      else
        (let (stored, ar) =
               (case arena s of
                  Some a \<Rightarrow> (let (b, a') = Copy v a in (b, Some a'))
                | None \<Rightarrow> (clone v, None));
             s1 = s\<lparr>entries := (entries s)(k \<mapsto> \<lparr>seq = sq, val = stored, deleted = False\<rparr>),
                    arena := ar\<rparr>
         in (None, track_key k s1)))"

definition Skiplist_Delete :: "string \<Rightarrow> 64 word \<Rightarrow> Skiplist \<Rightarrow> error option \<times> Skiplist" where
  "Skiplist_Delete k sq s =
     (if seq_rejected s k sq then (None, s)
      else
        (let s1 = s\<lparr>entries := (entries s)(k \<mapsto> \<lparr>seq = sq, val = [], deleted = True\<rparr>)\<rparr>
         in (None, track_key k s1)))"

text \<open>\<open>Get\<close> returns \<open>(nil, false)\<close> as \<open>None\<close> and \<open>(v, true)\<close> as \<open>Some v\<close>.\<close>

definition Skiplist_Get :: "string \<Rightarrow> Skiplist \<Rightarrow> string option" where
  "Skiplist_Get k s =
     (case entries s k of
        None \<Rightarrow> None
      | Some e \<Rightarrow> if deleted e then None else Some (clone (val e)))"

subsection \<open>Sequences of table operations\<close>

datatype op = OpPut string string "64 word" | OpDelete string "64 word"

fun op_key :: "op \<Rightarrow> string" where
  "op_key (OpPut k v sq) = k"
| "op_key (OpDelete k sq) = k"

fun op_seq :: "op \<Rightarrow> 64 word" where
  "op_seq (OpPut k v sq) = sq"
| "op_seq (OpDelete k sq) = sq"

fun apply_op :: "op \<Rightarrow> Skiplist \<Rightarrow> error option \<times> Skiplist" where
  "apply_op (OpPut k v sq) s = Skiplist_Put k v sq s"
| "apply_op (OpDelete k sq) s = Skiplist_Delete k sq s"

definition apply_ops :: "op list \<Rightarrow> Skiplist \<Rightarrow> Skiplist" where
  "apply_ops ops s = fold (\<lambda>x t. snd (apply_op x t)) ops s"

text \<open>What a key's winning operation makes visible.\<close>

fun op_visible :: "op \<Rightarrow> string option" where
  "op_visible (OpPut k v sq) = Some v"
| "op_visible (OpDelete k sq) = None"

text \<open>Scenario S1 of the specification, as a run of operations.\<close>

definition S1_ops :: "op list" where
  "S1_ops = [OpPut ''k'' ''v1'' 10, OpDelete ''k'' 5, OpDelete ''k'' 11, OpPut ''k'' ''v2'' 9,
             OpPut ''k'' ''v3'' 12]"

definition S1_first :: Skiplist where
  "S1_first = snd (Skiplist_Put ''k'' ''v1'' 10 (NewSkiplist None))"

section \<open>Iterator (internal/memtable/arena.go)\<close>

text \<open>
  The iterator owns its two slices: \<open>NewIterator\<close> fills them with fresh copies
  (\<open>[]byte(k)\<close>, \<open>clone(e.value)\<close>) and keeps no reference to the table.
\<close>

record Iterator =
  ikeys :: "string list"
  ivals :: "string list"
  idx :: int

text \<open>The loop of \<open>NewIterator\<close> over \<open>s.keys\<close>, appending to both slices at once.\<close>

fun snapshot :: "(string \<rightharpoonup> entry) \<Rightarrow> string list \<Rightarrow> (string \<times> string) list" where
  "snapshot es [] = []"
| "snapshot es (k # ks) =
     (case es k of
        Some e \<Rightarrow> if \<not> deleted e then (k, clone (val e)) # snapshot es ks else snapshot es ks
      | None \<Rightarrow> snapshot es ks)"

definition Skiplist_NewIterator :: "Skiplist \<Rightarrow> Iterator" where
  "Skiplist_NewIterator s =
     (let kv = snapshot (entries s) (keys s)
      in \<lparr>ikeys = map fst kv, ivals = map snd kv, idx = - 1\<rparr>)"

function SeekGE_loop :: "string list \<Rightarrow> string \<Rightarrow> nat \<Rightarrow> nat \<Rightarrow> nat" where
  "SeekGE_loop ks target lo hi =
     (if lo < hi then
        (let mid = (lo + hi) div 2
         in if ks ! mid < target then SeekGE_loop ks target (mid + 1) hi
            else SeekGE_loop ks target lo mid)
      else lo)"
  by pat_completeness auto
termination
  by (relation "measure (\<lambda>(ks, target, lo, hi). hi - lo)") auto

declare SeekGE_loop.simps [simp del]

definition Iterator_Next :: "Iterator \<Rightarrow> Iterator" where
  "Iterator_Next it = it\<lparr>idx := idx it + 1\<rparr>"

definition Iterator_SeekGE :: "string \<Rightarrow> Iterator \<Rightarrow> Iterator" where
  "Iterator_SeekGE target it =
     Iterator_Next (it\<lparr>idx := int (SeekGE_loop (ikeys it) target 0 (length (ikeys it))) - 1\<rparr>)"

definition Iterator_Valid :: "Iterator \<Rightarrow> bool" where
  "Iterator_Valid it = (0 \<le> idx it \<and> idx it < int (length (ikeys it)))"

text \<open>\<open>Key\<close> and \<open>Value\<close> index a slice: out of range is a run-time panic.\<close>

definition Iterator_Key :: "Iterator \<Rightarrow> string result" where
  "Iterator_Key it =
     (if 0 \<le> idx it \<and> idx it < int (length (ikeys it)) then Ok (ikeys it ! nat (idx it))
      else Panic)"

definition Iterator_Value :: "Iterator \<Rightarrow> string result" where
  "Iterator_Value it =
     (if 0 \<le> idx it \<and> idx it < int (length (ivals it)) then Ok (ivals it ! nat (idx it))
      else Panic)"

text \<open>
  The client's loop \<open>for it.Valid() { got = append(got, kv{it.Key(), it.Value()}); it.Next() }\<close>.
\<close>

function drain :: "Iterator \<Rightarrow> (string \<times> string) list \<Rightarrow> (string \<times> string) list result" where
  "drain it got =
     (if Iterator_Valid it then
        (case Iterator_Key it of
           Ok k \<Rightarrow>
             (case Iterator_Value it of
                Ok v \<Rightarrow> drain (Iterator_Next it) (got @ [(k, v)])
              | Err e \<Rightarrow> Err e
              | Panic \<Rightarrow> Panic)
         | Err e \<Rightarrow> Err e
         | Panic \<Rightarrow> Panic)
      else Ok got)"
  by pat_completeness auto
termination
  by (relation "measure (\<lambda>(it, got). nat (int (length (ikeys it)) - idx it))")
    (auto simp: Iterator_Valid_def Iterator_Next_def)

declare drain.simps [simp del]

text \<open>
  A session of one table and one iterator over it: some caller writes to the table
  (\<open>Write\<close>) between rounds of the loop that reads the iterator (\<open>Read\<close>: one round,
  which does nothing once the iterator is invalid).
\<close>

datatype event = Write op | Read

fun session :: "event list \<Rightarrow> Skiplist \<times> Iterator \<times> (string \<times> string) list \<Rightarrow>
    (Skiplist \<times> Iterator \<times> (string \<times> string) list) result" where
  "session [] st = Ok st"
| "session (Write x # es) (s, it, got) = session es (snd (apply_op x s), it, got)"
| "session (Read # es) (s, it, got) =
     (if Iterator_Valid it then
        (case Iterator_Key it of
           Ok k \<Rightarrow>
             (case Iterator_Value it of
                Ok v \<Rightarrow> session es (s, Iterator_Next it, got @ [(k, v)])
              | Err e \<Rightarrow> Err e
              | Panic \<Rightarrow> Panic)
         | Err e \<Rightarrow> Err e
         | Panic \<Rightarrow> Panic)
      else session es (s, it, got))"

fun writes :: "event list \<Rightarrow> op list" where
  "writes [] = []"
| "writes (Write x # es) = x # writes es"
| "writes (Read # es) = writes es"

text \<open>
  The table's representation invariant: \<open>keys\<close> is the sorted list, without repetition,
  of the keys of \<open>entries\<close>.
\<close>

definition wf_table :: "Skiplist \<Rightarrow> bool" where
  "wf_table s = (sorted (keys s) \<and> distinct (keys s) \<and> set (keys s) = dom (entries s))"

text \<open>A key is visible when it has an entry that is not a tombstone.\<close>

definition visible :: "(string \<rightharpoonup> entry) \<Rightarrow> string \<Rightarrow> bool" where
  "visible es k = (case es k of Some e \<Rightarrow> \<not> deleted e | None \<Rightarrow> False)"

text \<open>Scenario S2 of the specification: the table, and the writes after the iterator's creation.\<close>

definition S2_table :: Skiplist where
  "S2_table = apply_ops [OpPut ''a'' ''1'' 1, OpPut ''b'' ''2'' 2] (NewSkiplist None)"

definition S2_events :: "event list" where
  "S2_events = [Write (OpDelete ''b'' 3), Write (OpPut ''c'' ''3'' 4)]"

section \<open>Memtable (internal/memtable/memtable.go)\<close>

text \<open>
  The controller holds pointers to tables. The heap is the list of all tables ever
  allocated and a pointer is an index into it; \<open>NewSkiplist\<close> allocates at the end. Go's
  \<open>int\<close> fields \<open>threshold\<close> and \<open>sizeBytes\<close> are 64-bit two's complement words, compared
  as signed numbers; \<open>arenaCap\<close> is a buffer length.
\<close>

record Memtable =
  current :: nat
  imm :: "nat option"
  threshold :: "64 word"
  arenaCap :: nat
  sizeBytes :: "64 word"

record state =
  heap :: "Skiplist list"
  mem :: Memtable

definition NewMemtable :: "64 word \<Rightarrow> state" where
  "NewMemtable th =
     \<lparr>heap = [NewSkiplist (Some (NewArena (2 ^ 20)))],
      mem = \<lparr>current = 0, imm = None, threshold = th, arenaCap = 2 ^ 20, sizeBytes = 0\<rparr>\<rparr>"

definition projected :: "Memtable \<Rightarrow> string \<Rightarrow> string \<Rightarrow> 64 word" where
  "projected m k v = sizeBytes m + of_nat (length k) + of_nat (length v)"

text \<open>The condition of the flip: \<open>m.imm == nil && m.threshold > 0 && projected > m.threshold\<close>.\<close>

definition flip_due :: "Memtable \<Rightarrow> string \<Rightarrow> string \<Rightarrow> bool" where
  "flip_due m k v = (imm m = None \<and> 0 <s threshold m \<and> threshold m <s projected m k v)"

text \<open>Lines 26 to 31 of \<open>Memtable.Put\<close>: seal the current table and install a fresh one.\<close>

definition flip_if_due :: "string \<Rightarrow> string \<Rightarrow> state \<Rightarrow> state" where
  "flip_if_due k v w =
     (if flip_due (mem w) k v then
        \<lparr>heap = heap w @ [NewSkiplist (Some (NewArena (arenaCap (mem w))))],
         mem = (mem w)\<lparr>imm := Some (current (mem w)), current := length (heap w),
                       sizeBytes := 0\<rparr>\<rparr>
      else w)"

definition Memtable_Put :: "string \<Rightarrow> string \<Rightarrow> 64 word \<Rightarrow> state \<Rightarrow> error option \<times> state" where
  "Memtable_Put k v sq w =
     (let w1 = flip_if_due k v w;
          c = current (mem w1);
          (err, t) = Skiplist_Put k v sq (heap w1 ! c);
          w2 = w1\<lparr>heap := (heap w1)[c := t]\<rparr>
      in if err = None
         then (None, w2\<lparr>mem := (mem w2)\<lparr>sizeBytes :=
                 sizeBytes (mem w2) + of_nat (length k) + of_nat (length v)\<rparr>\<rparr>)
         else (None, w2))"

definition Memtable_Delete :: "string \<Rightarrow> 64 word \<Rightarrow> state \<Rightarrow> error option \<times> state" where
  "Memtable_Delete k sq w =
     (let c = current (mem w);
          (err, t) = Skiplist_Delete k sq (heap w ! c)
      in (err, w\<lparr>heap := (heap w)[c := t]\<rparr>))"

definition Memtable_Get :: "string \<Rightarrow> state \<Rightarrow> string option" where
  "Memtable_Get k w =
     (case Skiplist_Get k (heap w ! current (mem w)) of
        Some v \<Rightarrow> Some v
      | None \<Rightarrow>
          (case imm (mem w) of
             Some i \<Rightarrow> Skiplist_Get k (heap w ! i)
           | None \<Rightarrow> None))"


definition PopImmutable :: "state \<Rightarrow> nat option \<times> state" where
  "PopImmutable w = (imm (mem w), w\<lparr>mem := (mem w)\<lparr>imm := None\<rparr>\<rparr>)"

subsection \<open>Runs of controller operations\<close>

datatype mop = MPut string string "64 word" | MDelete string "64 word" | MPop

fun apply_mop :: "mop \<Rightarrow> state \<Rightarrow> state" where
  "apply_mop (MPut k v sq) w = snd (Memtable_Put k v sq w)"
| "apply_mop (MDelete k sq) w = snd (Memtable_Delete k sq w)"
| "apply_mop MPop w = snd (PopImmutable w)"

definition apply_mops :: "mop list \<Rightarrow> state \<Rightarrow> state" where
  "apply_mops ops w = fold apply_mop ops w"

subsection \<open>The merged iterator\<close>

text \<open>
  A \<open>[]byte\<close> field that may be \<open>nil\<close> is a \<open>string option\<close>; a key made by \<open>[]byte(k)\<close> is
  never \<open>nil\<close>, also when \<open>k\<close> is empty. \<open>str\<close> is the conversion \<open>string(b)\<close>.
\<close>

record mergedIterator =
  curIt :: "Iterator option"
  immIt :: "Iterator option"
  curK :: "string option"
  immK :: "string option"
  curV :: "string option"
  immV :: "string option"
  valid :: bool

definition str :: "string option \<Rightarrow> string" where
  "str b = (case b of None \<Rightarrow> [] | Some x \<Rightarrow> x)"

definition Memtable_NewIterator :: "state \<Rightarrow> mergedIterator" where
  "Memtable_NewIterator w =
     \<lparr>curIt = Some (Skiplist_NewIterator (heap w ! current (mem w))),
      immIt = (case imm (mem w) of
                 Some i \<Rightarrow> Some (Skiplist_NewIterator (heap w ! i))
               | None \<Rightarrow> None),
      curK = None, immK = None, curV = None, immV = None, valid = False\<rparr>"

text \<open>Lines 126 to 130 (and 131 to 135) of \<open>advance\<close>: the key and value under one iterator.\<close>

definition peek :: "Iterator option \<Rightarrow> (string option \<times> string option) result" where
  "peek i =
     (case i of
        None \<Rightarrow> Ok (None, None)
      | Some c \<Rightarrow>
          if Iterator_Valid c then
            (case Iterator_Key c of
               Ok k \<Rightarrow>
                 (case Iterator_Value c of
                    Ok v \<Rightarrow> Ok (Some k, Some v)
                  | Err e \<Rightarrow> Err e
                  | Panic \<Rightarrow> Panic)
             | Err e \<Rightarrow> Err e
             | Panic \<Rightarrow> Panic)
          else Ok (None, None))"

definition advance :: "mergedIterator \<Rightarrow> mergedIterator result" where
  "advance it =
     (case peek (curIt it) of
        Ok (ck, cv) \<Rightarrow>
          (case peek (immIt it) of
             Ok (ik, iv) \<Rightarrow>
               Ok (it\<lparr>curK := ck, curV := cv, immK := ik, immV := iv,
                      valid := \<not> (ck = None \<and> ik = None)\<rparr>)
           | Err e \<Rightarrow> Err e
           | Panic \<Rightarrow> Panic)
      | Err e \<Rightarrow> Err e
      | Panic \<Rightarrow> Panic)"

definition merged_SeekGE :: "string \<Rightarrow> mergedIterator \<Rightarrow> mergedIterator result" where
  "merged_SeekGE key it =
     advance (it\<lparr>curIt := map_option (Iterator_SeekGE key) (curIt it),
                 immIt := map_option (Iterator_SeekGE key) (immIt it)\<rparr>)"

definition merged_Valid :: "mergedIterator \<Rightarrow> bool" where
  "merged_Valid it = valid it"

definition merged_Key :: "mergedIterator \<Rightarrow> string option" where
  "merged_Key it = (if curK it \<noteq> None then curK it else immK it)"

definition merged_Value :: "mergedIterator \<Rightarrow> string option" where
  "merged_Value it = (if curK it \<noteq> None then curV it else immV it)"

text \<open>Lines 167 to 172: step an iterator that stands on the chosen key.\<close>

definition skip_equal :: "string option \<Rightarrow> Iterator option \<Rightarrow> Iterator option result" where
  "skip_equal chosen i =
     (case i of
        None \<Rightarrow> Ok None
      | Some c \<Rightarrow>
          if Iterator_Valid c then
            (case Iterator_Key c of
               Ok k \<Rightarrow> Ok (Some (if k = str chosen then Iterator_Next c else c))
             | Err e \<Rightarrow> Err e
             | Panic \<Rightarrow> Panic)
          else Ok (Some c))"

text \<open>Calling \<open>Next\<close> through a \<open>nil\<close> iterator pointer is a panic.\<close>

definition advanceFromCurrentKey :: "mergedIterator \<Rightarrow> mergedIterator result" where
  "advanceFromCurrentKey it =
     (if \<not> valid it then Ok it
      else
        (case (if curK it \<noteq> None \<and> (immK it = None \<or> str (curK it) \<le> str (immK it))
               then (case curIt it of
                       None \<Rightarrow> Panic
                     | Some c \<Rightarrow> Ok (curK it, it\<lparr>curIt := Some (Iterator_Next c)\<rparr>))
               else (case immIt it of
                       None \<Rightarrow> Panic
                     | Some i \<Rightarrow> Ok (immK it, it\<lparr>immIt := Some (Iterator_Next i)\<rparr>)))
         of
           Ok (chosen, it1) \<Rightarrow>
             (case skip_equal chosen (curIt it1) of
                Ok c' \<Rightarrow>
                  (case skip_equal chosen (immIt it1) of
                     Ok i' \<Rightarrow> advance (it1\<lparr>curIt := c', immIt := i'\<rparr>)
                   | Err e \<Rightarrow> Err e
                   | Panic \<Rightarrow> Panic)
              | Err e \<Rightarrow> Err e
              | Panic \<Rightarrow> Panic)
         | Err e \<Rightarrow> Err e
         | Panic \<Rightarrow> Panic))"

definition merged_Next :: "mergedIterator \<Rightarrow> mergedIterator result" where
  "merged_Next it = advanceFromCurrentKey it"

text \<open>
  The client's loop \<open>for it.Valid() { keys = append(keys, string(it.Key())); ...; it.Next() }\<close>
  with a bound on the number of rounds: \<open>None\<close> when the bound is reached with the
  iterator still valid.
\<close>

fun merged_drain :: "nat \<Rightarrow> mergedIterator \<Rightarrow> (string \<times> string) list \<Rightarrow>
    (string \<times> string) list result option" where
  "merged_drain 0 it got = (if merged_Valid it then None else Some (Ok got))"
| "merged_drain (Suc n) it got =
     (if merged_Valid it then
        (case merged_Next it of
           Ok it' \<Rightarrow> merged_drain n it' (got @ [(str (merged_Key it), str (merged_Value it))])
         | Err e \<Rightarrow> Some (Err e)
         | Panic \<Rightarrow> Some Panic)
      else Some (Ok got))"

text \<open>\<open>it := m.NewIterator(); it.SeekGE(key)\<close> and the loop above.\<close>

definition merged_scan :: "nat \<Rightarrow> string \<Rightarrow> state \<Rightarrow> (string \<times> string) list result option" where
  "merged_scan n key w =
     (case merged_SeekGE key (Memtable_NewIterator w) of
        Ok it \<Rightarrow> merged_drain n it []
      | Err e \<Rightarrow> Some (Err e)
      | Panic \<Rightarrow> Some Panic)"

subsection \<open>Scenarios S3 and S4 of the specification\<close>

definition S3_state :: state where
  "S3_state = apply_mops [MPut ''a'' ''1'' 1, MPut ''bb'' ''22'' 2, MDelete ''a'' 3] (NewMemtable 4)"

definition S4_state :: state where
  "S4_state = apply_mops [MPut ''b'' ''2'' 3] S3_state"

subsection \<open>Pointers of the controller\<close>

text \<open>
  Both pointers of the controller are in the heap, and the sealed table is not the
  current one.
\<close>

definition heap_ok :: "state \<Rightarrow> bool" where
  "heap_ok w =
     (current (mem w) < length (heap w) \<and>
      (\<forall>i. imm (mem w) = Some i \<longrightarrow> i < length (heap w) \<and> i \<noteq> current (mem w)))"

text \<open>A run that flips at threshold 4, and writes that follow the flip.\<close>

definition S9_ops :: "mop list" where
  "S9_ops = [MPut ''a'' ''1'' 1, MPut ''bb'' ''22'' 2]"

definition S9_later :: "mop list" where
  "S9_later = [MDelete ''a'' 3, MPut ''b'' ''2'' 3, MPut ''ccc'' ''333'' 4]"




section \<open>WAL record codec (internal/wal/record.go)\<close>

type_synonym byte = "8 word"

record Record =
  Type :: byte
  Key :: "byte list"
  Value :: "byte list"
  SeqNum :: "64 word"

definition RecordPut :: byte where
  "RecordPut = 0"

definition RecordDelete :: byte where
  "RecordDelete = 1"

text \<open>\<open>binary.BigEndian\<close> of Go's library: the most significant byte comes first.\<close>

definition PutUint32 :: "32 word \<Rightarrow> byte list" where
  "PutUint32 v = [ucast (drop_bit 24 v), ucast (drop_bit 16 v), ucast (drop_bit 8 v), ucast v]"

definition Uint32 :: "byte list \<Rightarrow> 32 word" where
  "Uint32 b =
     ucast (b ! 3) OR push_bit 8 (ucast (b ! 2)) OR push_bit 16 (ucast (b ! 1)) OR
     push_bit 24 (ucast (b ! 0))"

definition PutUint64 :: "64 word \<Rightarrow> byte list" where
  "PutUint64 v =
     [ucast (drop_bit 56 v), ucast (drop_bit 48 v), ucast (drop_bit 40 v), ucast (drop_bit 32 v),
      ucast (drop_bit 24 v), ucast (drop_bit 16 v), ucast (drop_bit 8 v), ucast v]"

definition Uint64 :: "byte list \<Rightarrow> 64 word" where
  "Uint64 b =
     ucast (b ! 7) OR push_bit 8 (ucast (b ! 6)) OR push_bit 16 (ucast (b ! 5)) OR
     push_bit 24 (ucast (b ! 4)) OR push_bit 32 (ucast (b ! 3)) OR push_bit 40 (ucast (b ! 2)) OR
     push_bit 48 (ucast (b ! 1)) OR push_bit 56 (ucast (b ! 0))"

text \<open>
  \<open>crc32.ChecksumIEEE\<close> of Go's library: the CRC-32 of the reflected polynomial
  \<open>0xEDB88320\<close>, with the register started at all ones and complemented at the end. A
  byte is folded into the low end of the register, which is then shifted eight times.
\<close>

definition crc_step :: "32 word \<Rightarrow> 32 word" where
  "crc_step c = (if bit c 0 then drop_bit 1 c XOR 0xEDB88320 else drop_bit 1 c)"

definition crc_byte :: "32 word \<Rightarrow> byte \<Rightarrow> 32 word" where
  "crc_byte c b = (crc_step ^^ 8) (c XOR ucast b)"

definition ChecksumIEEE :: "byte list \<Rightarrow> 32 word" where
  "ChecksumIEEE p = NOT (foldl crc_byte (NOT 0) p)"

text \<open>
  The payload that \<open>Encode\<close> writes from position 8 on, and the frame: the length of
  the payload as a \<open>uint32\<close>, the checksum of the payload, the payload.
\<close>

definition payload_of :: "Record \<Rightarrow> byte list" where
  "payload_of r =
     [Type r] @ PutUint64 (SeqNum r) @
     PutUint32 (of_nat (length (Key r))) @ Key r @
     PutUint32 (of_nat (length (Value r))) @ Value r"

definition Encode :: "Record \<Rightarrow> byte list" where
  "Encode r =
     (let payloadSize = 1 + 8 + 4 + length (Key r) + 4 + length (Value r)
      in PutUint32 (of_nat payloadSize) @ PutUint32 (ChecksumIEEE (payload_of r)) @ payload_of r)"

text \<open>
  The slice expression \<open>buf[lo:hi]\<close> panics unless \<open>lo <= hi <= cap(buf)\<close>; the buffers of
  this model have no capacity beyond their length. \<open>buf[i]\<close> panics unless \<open>i < len(buf)\<close>.
\<close>

definition subslice :: "'a list \<Rightarrow> nat \<Rightarrow> nat \<Rightarrow> 'a list option" where
  "subslice buf lo hi = (if lo \<le> hi \<and> hi \<le> length buf then Some (take (hi - lo) (drop lo buf)) else None)"

definition index :: "'a list \<Rightarrow> nat \<Rightarrow> 'a option" where
  "index buf i = (if i < length buf then Some (buf ! i) else None)"

text \<open>
  In \<open>Decode\<close> the sum \<open>8+payloadLen\<close> is a \<open>uint32\<close> and wraps around; positions are
  Go \<open>int\<close>s (64 bits), which the lengths of buffers cannot overflow.
\<close>

text \<open>Lines 84 to 104 of \<open>Decode\<close>: the fields, read at positions of the buffer.\<close>

definition decode_fields :: "byte list \<Rightarrow> Record result" where
  "decode_fields buf =
     (case index buf 8 of
        None \<Rightarrow> Panic
      | Some ty \<Rightarrow>
     (case subslice buf 9 17 of
        None \<Rightarrow> Panic
      | Some sb \<Rightarrow>
     (case subslice buf 17 21 of
        None \<Rightarrow> Panic
      | Some kl \<Rightarrow>
     (let keyLen = unat (Uint32 kl)
      in case subslice buf 21 (21 + keyLen) of
        None \<Rightarrow> Panic
      | Some key \<Rightarrow>
     (case subslice buf (21 + keyLen) (21 + keyLen + 4) of
        None \<Rightarrow> Panic
      | Some vl \<Rightarrow>
     (let valLen = unat (Uint32 vl)
      in case subslice buf (21 + keyLen + 4) (21 + keyLen + 4 + valLen) of
        None \<Rightarrow> Panic
      | Some value \<Rightarrow>
          Ok \<lparr>Type = ty, Key = key, Value = value, SeqNum = Uint64 sb\<rparr>))))))"

definition Decode :: "byte list \<Rightarrow> Record result" where
  "Decode buf =
     (if length buf < 8 then Err RecordTooShort
      else
        (let payloadLen = Uint32 (take 4 buf);
             checksum = Uint32 (take 4 (drop 4 buf))
         in if length buf < unat (8 + payloadLen) then Err RecordTruncated
            else
              (case subslice buf 8 (unat (8 + payloadLen)) of
                 None \<Rightarrow> Panic
               | Some payload \<Rightarrow>
                   if checksum \<noteq> ChecksumIEEE payload then Err ChecksumMismatch
                   else decode_fields buf)))"

text \<open>\<open>encoded[i] ^= 1 << j\<close>: one bit of one byte of a buffer flipped.\<close>

definition flip_frame_bit :: "byte list \<Rightarrow> nat \<Rightarrow> nat \<Rightarrow> byte list" where
  "flip_frame_bit buf i j = buf[i := buf ! i XOR push_bit j 1]"

section \<open>WAL reader (internal/wal)\<close>

text \<open>
  The reader is the list of bytes of the file not yet read; reading from the file fails
  only at its end. \<open>io.ReadFull\<close> of Go's library returns \<open>io.EOF\<close> when no byte could be
  read, \<open>io.ErrUnexpectedEOF\<close> when some but not all could, and nothing is asked of the
  file for an empty buffer.
\<close>

definition ReadFull :: "nat \<Rightarrow> byte list \<Rightarrow> (byte list \<times> byte list) result" where
  "ReadFull n rd =
     (if n = 0 then Ok ([], rd)
      else if rd = [] then Err EOF
      else if length rd < n then Err UnexpectedEOF
      else Ok (take n rd, drop n rd))"

text \<open>
  \<open>fullBuf := make([]byte, 8+payloadLen)\<close> and the three \<open>copy\<close> calls; the sum is a
  \<open>uint32\<close> again, and \<open>fullBuf[0:4]\<close> and \<open>fullBuf[4:8]\<close> panic on a buffer that short.
\<close>

definition make_fullBuf :: "byte list \<Rightarrow> byte list \<Rightarrow> 32 word \<Rightarrow> byte list \<Rightarrow> byte list result" where
  "make_fullBuf lenBytes checksumBytes payloadLen buf =
     (let n = unat (8 + payloadLen)
      in if n < 4 then Panic
         else if n < 8 then Panic
         else Ok (lenBytes @ checksumBytes @ take (n - 8) buf @
                  replicate (n - 8 - length buf) 0))"

definition ReadRecord :: "byte list \<Rightarrow> (Record \<times> byte list) result" where
  "ReadRecord rd =
     (case ReadFull 4 rd of
        Err e \<Rightarrow> Err e
      | Panic \<Rightarrow> Panic
      | Ok (lenBytes, rd1) \<Rightarrow>
     (let payloadLen = Uint32 lenBytes
      in case ReadFull 4 rd1 of
        Err e \<Rightarrow> Err e
      | Panic \<Rightarrow> Panic
      | Ok (checksumBytes, rd2) \<Rightarrow>
     (case ReadFull (unat payloadLen) rd2 of
        Err e \<Rightarrow> Err e
      | Panic \<Rightarrow> Panic
      | Ok (buf, rd3) \<Rightarrow>
     (let checksum = Uint32 checksumBytes;
          expectedChecksum = ChecksumIEEE buf
      in if checksum \<noteq> expectedChecksum then
           (case make_fullBuf lenBytes checksumBytes payloadLen buf of
              Err e \<Rightarrow> Err e
            | Panic \<Rightarrow> Panic
            | Ok fullBuf \<Rightarrow>
                (case Decode fullBuf of
                   Panic \<Rightarrow> Panic
                 | Err e \<Rightarrow> Err ChecksumMismatch
                 | Ok r \<Rightarrow> Err ChecksumMismatch))
         else
           (case make_fullBuf lenBytes checksumBytes payloadLen buf of
              Err e \<Rightarrow> Err e
            | Panic \<Rightarrow> Panic
            | Ok fullBuf \<Rightarrow>
                (case Decode fullBuf of
                   Panic \<Rightarrow> Panic
                 | Err e \<Rightarrow> Err e
                 | Ok r \<Rightarrow> Ok (r, rd3)))))))"

text \<open>
  \<open>Replay\<close>: the callback may keep state of its own (\<open>'s\<close>); it returns an error or
  \<open>nil\<close> (\<open>None\<close>). The loop ends because every record read takes bytes from the file.
\<close>

function Replay_loop :: "(Record \<Rightarrow> 's \<Rightarrow> error option \<times> 's) \<Rightarrow> nat \<Rightarrow> byte list \<Rightarrow> 's \<Rightarrow>
    unit result \<times> 's" where
  "Replay_loop callback count rd st =
     (case ReadRecord rd of
        Err e \<Rightarrow>
          if e = EOF then (Ok (), st)
          else if e = UnexpectedEOF then (if count = 0 then (Err e, st) else (Ok (), st))
          else (Err e, st)
      | Panic \<Rightarrow> (Panic, st)
      | Ok (r, rd') \<Rightarrow>
          (case callback r st of
             (Some e, st') \<Rightarrow> (Err e, st')
           | (None, st') \<Rightarrow> Replay_loop callback (count + 1) rd' st'))"
  by pat_completeness auto
termination
proof (relation "measure (\<lambda>(callback, count, rd, st). length rd)")
  show "wf (measure (\<lambda>(callback, count, rd, st). length rd))" by simp
next
  fix callback :: "Record \<Rightarrow> 's \<Rightarrow> error option \<times> 's"
    and count :: nat and rd :: "byte list" and st :: 's and x r rd' y st' z
  assume "ReadRecord rd = Ok x" "(r, rd') = x"
  then have rr: "ReadRecord rd = Ok (r, rd')" by simp
  have "length rd' < length rd"
  proof (cases "ReadFull 4 rd")
    case (Ok p)
    then have "rd \<noteq> []" "4 \<le> length rd" "snd p = drop 4 rd"
      by (auto simp: ReadFull_def split: if_splits)
    moreover have "length rd' \<le> length (snd p)"
      using rr Ok
      by (auto simp: ReadRecord_def ReadFull_def Let_def
          split: result.splits prod.splits if_splits)
    ultimately show ?thesis by simp
  next
    case (Err e)
    then show ?thesis using rr by (simp add: ReadRecord_def)
  next
    case Panic
    then show ?thesis using rr by (simp add: ReadRecord_def)
  qed
  then show "((callback, count + 1, rd', st'), (callback, count, rd, st))
      \<in> measure (\<lambda>(callback, count, rd, st). length rd)"
    by simp
qed

declare Replay_loop.simps [simp del]

definition Replay :: "(Record \<Rightarrow> 's \<Rightarrow> error option \<times> 's) \<Rightarrow> byte list \<Rightarrow> 's \<Rightarrow> unit result \<times> 's" where
  "Replay callback rd st = Replay_loop callback 0 rd st"

text \<open>
  \<open>reads rd rs\<close>: reading the file record by record yields the records \<open>rs\<close> and leaves
  the bytes it returns. \<open>accepts\<close>: the callback returns \<open>nil\<close> on each of the records,
  in order, and leaves the state it returns.
\<close>

fun reads :: "byte list \<Rightarrow> Record list \<Rightarrow> byte list option" where
  "reads rd [] = Some rd"
| "reads rd (r # rs) =
     (case ReadRecord rd of
        Ok (r', rd') \<Rightarrow> if r' = r then reads rd' rs else None
      | Err e \<Rightarrow> None
      | Panic \<Rightarrow> None)"

fun accepts :: "(Record \<Rightarrow> 's \<Rightarrow> error option \<times> 's) \<Rightarrow> Record list \<Rightarrow> 's \<Rightarrow> 's option" where
  "accepts callback [] st = Some st"
| "accepts callback (r # rs) st =
     (case callback r st of
        (None, st') \<Rightarrow> accepts callback rs st'
      | (Some e, st') \<Rightarrow> None)"

text \<open>A callback that collects the records it is given, as the tests' callbacks do.\<close>

definition collect :: "Record \<Rightarrow> Record list \<Rightarrow> error option \<times> Record list" where
  "collect r recs = (None, recs @ [r])"

text \<open>
  Records for the codec: a Put of one-byte key and value, a Delete with empty key and
  value, and a record whose key and value are each shorter than \<open>2^32\<close> bytes while its
  payload is \<open>2^33 - 8\<close> bytes long.
\<close>

definition rec1 :: Record where
  "rec1 = \<lparr>Type = RecordPut, Key = [0x6B], Value = [0x76], SeqNum = 1\<rparr>"

definition rec0 :: Record where
  "rec0 = \<lparr>Type = RecordDelete, Key = [], Value = [], SeqNum = 0\<rparr>"

definition huge :: Record where
  "huge = \<lparr>Type = RecordPut, Key = replicate (2 ^ 32 - 1) 0, Value = replicate (2 ^ 32 - 24) 0, SeqNum = 0\<rparr>"

subsection \<open>Entries written by operations\<close>

fun op_entry :: "op \<Rightarrow> entry" where
  "op_entry (OpPut k v sq) = \<lparr>seq = sq, val = v, deleted = False\<rparr>"
| "op_entry (OpDelete k sq) = \<lparr>seq = sq, val = [], deleted = True\<rparr>"

text \<open>
  The table's invariant after any run from a fresh table: a key without an operation
  has no entry, and a key's entry is that of one of its operations of greatest sequence.
\<close>

definition latest_inv :: "op list \<Rightarrow> Skiplist \<Rightarrow> bool" where
  "latest_inv ops s =
     (\<forall>k. case entries s k of
            None \<Rightarrow> k \<notin> op_key ` set ops
          | Some e \<Rightarrow> (\<exists>m \<in> set ops. op_key m = k \<and> e = op_entry m \<and>
                        (\<forall>x \<in> set ops. op_key x = k \<longrightarrow> op_seq x \<le> op_seq m)))"

section \<open>Sequence-versioned writes\<close>

lemma Copy_bytes: "fst (Copy v a) = v"
  by (simp add: Copy_def Alloc_def Let_def split: prod.splits)

lemma entries_track_key: "entries (track_key k s) = entries s"
  by (simp add: track_key_def)

lemma apply_op_entries:
  "entries (snd (apply_op x s)) =
     (if seq_rejected s (op_key x) (op_seq x) then entries s
      else (entries s)(op_key x \<mapsto> op_entry x))"
proof (cases x)
  case (OpPut k v sq)
  show ?thesis
  proof (cases "arena s")
    case None
    then show ?thesis
      using OpPut by (simp add: Skiplist_Put_def entries_track_key clone_def)
  next
    case (Some a)
    obtain b a' where c: "Copy v a = (b, a')" by (cases "Copy v a")
    then have "b = v" using Copy_bytes [of v a] by simp
    then show ?thesis
      using OpPut Some c by (simp add: Skiplist_Put_def entries_track_key)
  qed
next
  case (OpDelete k sq)
  then show ?thesis
    by (simp add: Skiplist_Delete_def entries_track_key)
qed

lemma apply_op_success: "fst (apply_op x s) = None"
  by (cases x) (simp_all add: Skiplist_Put_def Skiplist_Delete_def Let_def split: prod.splits)

lemma latest_inv_None:
  "latest_inv ops s \<Longrightarrow> entries s k = None \<Longrightarrow> k \<notin> op_key ` set ops"
  unfolding latest_inv_def by (erule allE [of _ k]) simp

lemma latest_inv_Some:
  "latest_inv ops s \<Longrightarrow> entries s k = Some e \<Longrightarrow>
     \<exists>m \<in> set ops. op_key m = k \<and> e = op_entry m \<and>
        (\<forall>x \<in> set ops. op_key x = k \<longrightarrow> op_seq x \<le> op_seq m)"
  unfolding latest_inv_def by (erule allE [of _ k]) simp

lemma seq_op_entry: "seq (op_entry m) = op_seq m"
  by (cases m) simp_all

lemma latest_inv_step:
  assumes "latest_inv ops s"
  shows "latest_inv (ops @ [x]) (snd (apply_op x s))"
  unfolding latest_inv_def
proof
  fix k
  let ?s' = "snd (apply_op x s)"
  have old: "case entries s k of
            None \<Rightarrow> k \<notin> op_key ` set ops
          | Some e \<Rightarrow> (\<exists>m \<in> set ops. op_key m = k \<and> e = op_entry m \<and>
                        (\<forall>x \<in> set ops. op_key x = k \<longrightarrow> op_seq x \<le> op_seq m))"
    using assms unfolding latest_inv_def by blast
  show "case entries ?s' k of
            None \<Rightarrow> k \<notin> op_key ` set (ops @ [x])
          | Some e \<Rightarrow> (\<exists>m \<in> set (ops @ [x]). op_key m = k \<and> e = op_entry m \<and>
                        (\<forall>y \<in> set (ops @ [x]). op_key y = k \<longrightarrow> op_seq y \<le> op_seq m))"
  proof (cases "op_key x = k")
    case False
    then have "entries ?s' k = entries s k"
      by (auto simp: apply_op_entries)
    then show ?thesis
      using old False by (auto split: option.splits)
  next
    case True
    show ?thesis
    proof (cases "seq_rejected s k (op_seq x)")
      case True
      then obtain cur where cur: "entries s k = Some cur" "op_seq x \<le> seq cur"
        by (auto simp: seq_rejected_def split: option.splits)
      have "entries ?s' k = Some cur"
        using True \<open>op_key x = k\<close> cur by (simp add: apply_op_entries)
      moreover obtain m where "m \<in> set ops" "op_key m = k" "cur = op_entry m"
        "\<forall>y \<in> set ops. op_key y = k \<longrightarrow> op_seq y \<le> op_seq m"
        using old cur by auto
      ultimately show ?thesis
        using cur by (auto simp: seq_op_entry)
    next
      case False
      have new: "entries ?s' k = Some (op_entry x)"
        using False \<open>op_key x = k\<close> by (simp add: apply_op_entries)
      have "\<forall>y \<in> set ops. op_key y = k \<longrightarrow> op_seq y \<le> op_seq x"
      proof (cases "entries s k")
        case None
        then show ?thesis using old by auto
      next
        case (Some cur)
        then have "seq cur < op_seq x"
          using False by (simp add: seq_rejected_def)
        moreover obtain m where "cur = op_entry m"
          "\<forall>y \<in> set ops. op_key y = k \<longrightarrow> op_seq y \<le> op_seq m"
          using old Some by auto
        ultimately show ?thesis
          by (fastforce simp: seq_op_entry)
      qed
      then show ?thesis
        using new \<open>op_key x = k\<close> by auto
    qed
  qed
qed

lemma latest_inv_apply_ops: "latest_inv ops (apply_ops ops (NewSkiplist a))"
proof (induction ops rule: rev_induct)
  case Nil
  show ?case by (simp add: latest_inv_def apply_ops_def NewSkiplist_def)
next
  case (snoc x xs)
  then show ?case
    using latest_inv_step [of xs "apply_ops xs (NewSkiplist a)" x]
    by (simp add: apply_ops_def)
qed

lemma Get_op_entry: "entries s k = Some (op_entry m) \<Longrightarrow> Skiplist_Get k s = op_visible m"
  by (cases m) (simp_all add: Skiplist_Get_def clone_def)

lemma rejected_unchanged:
  "seq_rejected s k sq \<Longrightarrow> Skiplist_Put k v sq s = (None, s) \<and> Skiplist_Delete k sq s = (None, s)"
  by (simp add: Skiplist_Put_def Skiplist_Delete_def)

text \<open>
  C3. For operations on a fresh table whose sequence numbers are pairwise distinct per
  key, in any order: the key of an operation that has the greatest sequence number
  among the operations of its key reads as that operation alone leaves it (the value of
  a Put, absent after a Delete). Every operation returns success, and a Put or Delete
  whose sequence number is not above the stored one leaves the table as it is.
\<close>

theorem highest_seq_wins:
  "(distinct (map (\<lambda>x. (op_key x, op_seq x)) ops) \<and> w \<in> set ops \<and>
      (\<forall>x \<in> set ops. op_key x = op_key w \<longrightarrow> op_seq x \<le> op_seq w)
     \<longrightarrow> Skiplist_Get (op_key w) (apply_ops ops (NewSkiplist a)) = op_visible w) \<and>
   fst (apply_op x s) = None \<and>
   (entries s k = Some cur \<and> sq \<le> seq cur
     \<longrightarrow> Skiplist_Put k v sq s = (None, s) \<and> Skiplist_Delete k sq s = (None, s))"
proof (intro conjI impI)
  assume h: "distinct (map (\<lambda>x. (op_key x, op_seq x)) ops) \<and> w \<in> set ops \<and>
      (\<forall>x \<in> set ops. op_key x = op_key w \<longrightarrow> op_seq x \<le> op_seq w)"
  let ?s = "apply_ops ops (NewSkiplist a)"
  have inv: "latest_inv ops ?s" by (rule latest_inv_apply_ops)
  have "op_key w \<in> op_key ` set ops"
    using h by simp
  then have "entries ?s (op_key w) \<noteq> None"
    using latest_inv_None [OF inv] by blast
  then obtain e where e: "entries ?s (op_key w) = Some e" by auto
  obtain m where m: "m \<in> set ops" "op_key m = op_key w" "e = op_entry m"
    "\<forall>x \<in> set ops. op_key x = op_key w \<longrightarrow> op_seq x \<le> op_seq m"
    using latest_inv_Some [OF inv e] by blast
  have "op_seq m \<le> op_seq w"
    using m(1,2) h by simp
  moreover have "op_seq w \<le> op_seq m"
    using m(4) h by simp
  ultimately have "(op_key m, op_seq m) = (op_key w, op_seq w)"
    using m(2) by simp
  moreover have "inj_on (\<lambda>x. (op_key x, op_seq x)) (set ops)"
    using h by (simp add: distinct_map)
  ultimately have "m = w"
    using m(1) h by (simp add: inj_on_def)
  then show "Skiplist_Get (op_key w) ?s = op_visible w"
    using e m Get_op_entry by simp
next
  show "fst (apply_op x s) = None" by (rule apply_op_success)
next
  assume "entries s k = Some cur \<and> sq \<le> seq cur"
  then have "seq_rejected s k sq" by (simp add: seq_rejected_def)
  then show "Skiplist_Put k v sq s = (None, s)" "Skiplist_Delete k sq s = (None, s)"
    using rejected_unchanged by simp_all
qed

theorem highest_seq_wins_witness:
  "distinct (map (\<lambda>x. (op_key x, op_seq x)) S1_ops) \<and> OpPut ''k'' ''v3'' 12 \<in> set S1_ops \<and>
   Max (op_seq ` set S1_ops) = 12 \<and>
   Skiplist_Get ''k'' (apply_ops S1_ops (NewSkiplist None)) = Some ''v3'' \<and>
   entries S1_first ''k'' = Some \<lparr>seq = 10, val = ''v1'', deleted = False\<rparr> \<and>
   Skiplist_Put ''k'' ''v2'' 9 S1_first = (None, S1_first) \<and>
   Skiplist_Delete ''k'' 5 S1_first = (None, S1_first)"
proof -
  have d: "distinct (map (\<lambda>x. (op_key x, op_seq x)) S1_ops)"
    by (simp add: S1_ops_def)
  have m: "OpPut ''k'' ''v3'' 12 \<in> set S1_ops"
    by (simp add: S1_ops_def)
  have g: "\<forall>x \<in> set S1_ops. op_key x = op_key (OpPut ''k'' ''v3'' 12)
             \<longrightarrow> op_seq x \<le> op_seq (OpPut ''k'' ''v3'' 12)"
    by (simp add: S1_ops_def)
  have e: "entries S1_first ''k'' = Some \<lparr>seq = 10, val = ''v1'', deleted = False\<rparr>"
    by (simp add: S1_first_def Skiplist_Put_def seq_rejected_def NewSkiplist_def clone_def
        entries_track_key)
  note t = highest_seq_wins [of S1_ops "OpPut ''k'' ''v3'' 12" None "OpDelete ''k'' 5" S1_first
      "''k''" "\<lparr>seq = 10, val = ''v1'', deleted = False\<rparr>" 9 "''v2''"]
  note u = highest_seq_wins [of S1_ops "OpPut ''k'' ''v3'' 12" None "OpDelete ''k'' 5" S1_first
      "''k''" "\<lparr>seq = 10, val = ''v1'', deleted = False\<rparr>" 5 "''v2''"]
  have x: "Max (op_seq ` set S1_ops) = 12"
    by (simp add: S1_ops_def)
  show ?thesis
    using d m g e t u x by simp
qed

section \<open>The table's sorted key list\<close>

lemma Search_spec:
  "sorted a \<Longrightarrow> i \<le> j \<Longrightarrow> j \<le> length a \<Longrightarrow> (\<forall>n<i. a ! n < x) \<Longrightarrow>
   (\<forall>n. j \<le> n \<and> n < length a \<longrightarrow> x \<le> a ! n) \<Longrightarrow>
   Search a x i j \<le> length a \<and> (\<forall>n < Search a x i j. a ! n < x) \<and>
   (\<forall>n. Search a x i j \<le> n \<and> n < length a \<longrightarrow> x \<le> a ! n)"
proof (induction a x i j rule: Search.induct)
  case (1 a x i j)
  show ?case
  proof (cases "i < j")
    case False
    then have "Search a x i j = i" by (subst Search.simps) simp
    moreover have "i = j" using False "1.prems"(2) by simp
    ultimately show ?thesis using "1.prems" by simp
  next
    case True
    define h where "h = (i + j) div 2"
    have hb: "i \<le> h" "h < j" using True by (simp_all add: h_def)
    then have hl: "h < length a" using "1.prems"(3) by simp
    show ?thesis
    proof (cases "x \<le> a ! h")
      case False
      have low: "\<forall>n<h + 1. a ! n < x"
      proof (intro allI impI)
        fix n assume "n < h + 1"
        then have "a ! n \<le> a ! h"
          using "1.prems"(1) hl by (simp add: sorted_nth_mono)
        then show "a ! n < x" using False by simp
      qed
      have eq: "Search a x i j = Search a x (h + 1) j"
        using True False by (subst Search.simps) (simp add: h_def Let_def)
      have "Search a x (h + 1) j \<le> length a \<and> (\<forall>n < Search a x (h + 1) j. a ! n < x) \<and>
        (\<forall>n. Search a x (h + 1) j \<le> n \<and> n < length a \<longrightarrow> x \<le> a ! n)"
        using "1.IH"(1) [OF True h_def False "1.prems"(1) _ "1.prems"(3) low "1.prems"(5)] hb
        by simp
      then show ?thesis using eq by simp
    next
      case le: True
      have high: "\<forall>n. h \<le> n \<and> n < length a \<longrightarrow> x \<le> a ! n"
      proof (intro allI impI)
        fix n assume "h \<le> n \<and> n < length a"
        then have "a ! h \<le> a ! n"
          using "1.prems"(1) by (simp add: sorted_nth_mono)
        then show "x \<le> a ! n" using le by simp
      qed
      have eq: "Search a x i j = Search a x i h"
        using True le by (subst Search.simps) (simp add: h_def Let_def)
      have "h \<le> length a" using hl by simp
      have "Search a x i h \<le> length a \<and> (\<forall>n < Search a x i h. a ! n < x) \<and>
        (\<forall>n. Search a x i h \<le> n \<and> n < length a \<longrightarrow> x \<le> a ! n)"
        using "1.IH"(2) [OF True h_def _ "1.prems"(1) hb(1) \<open>h \<le> length a\<close> "1.prems"(4) high] le
        by simp
      then show ?thesis using eq by simp
    qed
  qed
qed

lemma keyPresent_iff: "sorted a \<Longrightarrow> keyPresent a k \<longleftrightarrow> k \<in> set a"
proof -
  assume s: "sorted a"
  define r where "r = Search a k 0 (length a)"
  have "r \<le> length a \<and> (\<forall>n < r. a ! n < k) \<and> (\<forall>n. r \<le> n \<and> n < length a \<longrightarrow> k \<le> a ! n)"
    unfolding r_def by (rule Search_spec) (use s in auto)
  then have sp: "r \<le> length a" "\<forall>n < r. a ! n < k" "\<forall>n. r \<le> n \<and> n < length a \<longrightarrow> k \<le> a ! n"
    by blast+
  have kp: "keyPresent a k \<longleftrightarrow> r < length a \<and> a ! r = k"
    by (simp add: keyPresent_def SearchStrings_def r_def Let_def)
  show ?thesis
  proof
    assume "keyPresent a k"
    then show "k \<in> set a" using kp by auto
  next
    assume "k \<in> set a"
    then obtain n where n: "n < length a" "a ! n = k" by (auto simp: in_set_conv_nth)
    have "r \<le> n"
    proof (rule ccontr)
      assume "\<not> r \<le> n"
      then have "a ! n < k" using sp(2) by simp
      then show False using n by simp
    qed
    then have "r < length a" using n by simp
    moreover have "k \<le> a ! r" using sp(3) \<open>r < length a\<close> by simp
    moreover have "a ! r \<le> a ! n" using s \<open>r \<le> n\<close> n(1) by (simp add: sorted_nth_mono)
    ultimately show "keyPresent a k" using kp n by simp
  qed
qed

lemma wf_NewSkiplist: "wf_table (NewSkiplist a)"
  by (simp add: wf_table_def NewSkiplist_def)

lemma keys_track_key:
  assumes "sorted (keys s)" "distinct (keys s)"
  shows "sorted (keys (track_key k s)) \<and> distinct (keys (track_key k s)) \<and>
         set (keys (track_key k s)) = insert k (set (keys s))"
proof (cases "k \<in> set (keys s)")
  case True
  then have "keyPresent (keys s) k" using assms(1) by (simp add: keyPresent_iff)
  then have "track_key k s = s" by (simp add: track_key_def)
  then show ?thesis using assms True by auto
next
  case False
  then have "\<not> keyPresent (keys s) k" using assms(1) by (simp add: keyPresent_iff)
  then have "keys (track_key k s) = sort (keys s @ [k])"
    by (simp add: track_key_def sortKeys_def)
  then show ?thesis using assms False by simp
qed

lemma wf_store:
  assumes "wf_table s"
  shows "wf_table (track_key k (s\<lparr>entries := (entries s)(k \<mapsto> e), arena := ar\<rparr>))"
proof -
  let ?s1 = "s\<lparr>entries := (entries s)(k \<mapsto> e), arena := ar\<rparr>"
  have "sorted (keys ?s1)" "distinct (keys ?s1)" using assms by (simp_all add: wf_table_def)
  then have "sorted (keys (track_key k ?s1)) \<and> distinct (keys (track_key k ?s1)) \<and>
         set (keys (track_key k ?s1)) = insert k (set (keys ?s1))"
    by (rule keys_track_key)
  moreover have "dom (entries (track_key k ?s1)) = insert k (dom (entries s))"
    by (simp add: entries_track_key)
  moreover have "set (keys ?s1) = dom (entries s)" using assms by (simp add: wf_table_def)
  ultimately show ?thesis by (simp add: wf_table_def)
qed

lemma wf_apply_op: "wf_table s \<Longrightarrow> wf_table (snd (apply_op x s))"
proof (cases x)
  case (OpPut k v sq)
  assume w: "wf_table s"
  show ?thesis
  proof (cases "seq_rejected s k sq")
    case True
    then show ?thesis using w OpPut by (simp add: Skiplist_Put_def)
  next
    case False
    then show ?thesis
      using OpPut wf_store [OF w] by (simp add: Skiplist_Put_def split: option.splits prod.splits)
  qed
next
  case (OpDelete k sq)
  assume w: "wf_table s"
  show ?thesis
  proof (cases "seq_rejected s k sq")
    case True
    then show ?thesis using w OpDelete by (simp add: Skiplist_Delete_def)
  next
    case False
    have "s\<lparr>entries := (entries s)(k \<mapsto> \<lparr>seq = sq, val = [], deleted = True\<rparr>)\<rparr> =
      s\<lparr>entries := (entries s)(k \<mapsto> \<lparr>seq = sq, val = [], deleted = True\<rparr>), arena := arena s\<rparr>"
      by simp
    then show ?thesis
      using False OpDelete
        wf_store [OF w, where k = k and e = "\<lparr>seq = sq, val = [], deleted = True\<rparr>" and ar = "arena s"]
      by (simp add: Skiplist_Delete_def)
  qed
qed

lemma wf_apply_ops: "wf_table s \<Longrightarrow> wf_table (apply_ops ops s)"
proof (induction ops arbitrary: s)
  case Nil
  then show ?case by (simp add: apply_ops_def)
next
  case (Cons x xs)
  then show ?case using wf_apply_op [of s x] by (simp add: apply_ops_def)
qed

lemma snapshot_keys: "map fst (snapshot es ks) = filter (visible es) ks"
  by (induction ks) (auto simp: visible_def split: option.splits)

lemma snapshot_set:
  "(k, v) \<in> set (snapshot es ks) \<longleftrightarrow>
     k \<in> set ks \<and> (\<exists>e. es k = Some e \<and> \<not> deleted e \<and> v = val e)"
  by (induction ks) (auto simp: clone_def split: option.splits)

lemma snapshot_sorted:
  "sorted ks \<Longrightarrow> distinct ks \<Longrightarrow> sorted_wrt (<) (map fst (snapshot es ks))"
  by (simp add: snapshot_keys strict_sorted_iff sorted_wrt_filter)

lemma snapshot_Get:
  "wf_table s \<Longrightarrow> (k, v) \<in> set (snapshot (entries s) (keys s)) \<longleftrightarrow> Skiplist_Get k s = Some v"
  by (auto simp: snapshot_set wf_table_def Skiplist_Get_def clone_def split: option.splits)

lemma SeekGE_loop_empty: "lo = 0 \<Longrightarrow> target = [] \<Longrightarrow> SeekGE_loop ks target lo hi = 0"
proof (induction ks target lo hi rule: SeekGE_loop.induct)
  case (1 ks target lo hi)
  show ?case
  proof (cases "lo < hi")
    case False
    then show ?thesis using "1.prems" by (subst SeekGE_loop.simps) simp
  next
    case True
    have n: "\<not> ks ! ((lo + hi) div 2) < target" using "1.prems" by simp
    have "SeekGE_loop ks target lo hi = SeekGE_loop ks target lo ((lo + hi) div 2)"
      using True n by (subst SeekGE_loop.simps) (simp add: Let_def)
    then show ?thesis using "1.IH"(2) [OF True refl n] "1.prems" by simp
  qed
qed

lemma drain_all:
  "length (ivals it) = length (ikeys it) \<Longrightarrow> 0 \<le> idx it \<Longrightarrow>
   drain it got = Ok (got @ drop (nat (idx it)) (zip (ikeys it) (ivals it)))"
proof (induction it got rule: drain.induct)
  case (1 it got)
  show ?case
  proof (cases "Iterator_Valid it")
    case False
    then have "length (ikeys it) \<le> nat (idx it)"
      using "1.prems" by (simp add: Iterator_Valid_def)
    then show ?thesis using False by (subst drain.simps) simp
  next
    case True
    then have r: "nat (idx it) < length (ikeys it)"
      using "1.prems" by (simp add: Iterator_Valid_def)
    define k where "k = ikeys it ! nat (idx it)"
    define v where "v = ivals it ! nat (idx it)"
    have kv: "Iterator_Key it = Ok k" "Iterator_Value it = Ok v"
      using True "1.prems" by (simp_all add: Iterator_Valid_def Iterator_Key_def Iterator_Value_def k_def v_def)
    have nx: "length (ivals (Iterator_Next it)) = length (ikeys (Iterator_Next it))"
      "0 \<le> idx (Iterator_Next it)" "nat (idx (Iterator_Next it)) = Suc (nat (idx it))"
      "ikeys (Iterator_Next it) = ikeys it" "ivals (Iterator_Next it) = ivals it"
      using "1.prems" by (simp_all add: Iterator_Next_def nat_add_distrib)
    have "drain it got = drain (Iterator_Next it) (got @ [(k, v)])"
      using True kv by (subst drain.simps) simp
    also have "\<dots> = Ok ((got @ [(k, v)]) @ drop (nat (idx (Iterator_Next it)))
        (zip (ikeys (Iterator_Next it)) (ivals (Iterator_Next it))))"
      using "1.IH" [OF True kv(1) kv(2) nx(1) nx(2)] .
    also have "\<dots> = Ok (got @ drop (nat (idx it)) (zip (ikeys it) (ivals it)))"
      using r "1.prems"(1) by (simp add: nx k_def v_def Cons_nth_drop_Suc [symmetric])
    finally show ?thesis .
  qed
qed


lemma apply_ops_Cons: "apply_ops (x # xs) s = apply_ops xs (snd (apply_op x s))"
  by (simp add: apply_ops_def)

lemma session_drain:
  "length (ivals it) = length (ikeys it) \<Longrightarrow> 0 \<le> idx it \<Longrightarrow>
   \<exists>it' got'. session es (s, it, got) = Ok (apply_ops (writes es) s, it', got') \<and>
      drain it' got' = drain it got"
proof (induction es arbitrary: s it got)
  case Nil
  then show ?case by (simp add: apply_ops_def)
next
  case (Cons ev es)
  show ?case
  proof (cases ev)
    case (Write x)
    then show ?thesis
      using Cons.IH [OF Cons.prems, of "snd (apply_op x s)" got]
      by (simp add: apply_ops_Cons)
  next
    case Read
    show ?thesis
    proof (cases "Iterator_Valid it")
      case False
      then show ?thesis
        using Read Cons.IH [OF Cons.prems, of s got] by simp
    next
      case True
      define k where "k = ikeys it ! nat (idx it)"
      define v where "v = ivals it ! nat (idx it)"
      have kv: "Iterator_Key it = Ok k" "Iterator_Value it = Ok v"
        using True Cons.prems
        by (simp_all add: Iterator_Valid_def Iterator_Key_def Iterator_Value_def k_def v_def)
      have nx: "length (ivals (Iterator_Next it)) = length (ikeys (Iterator_Next it))"
        "0 \<le> idx (Iterator_Next it)"
        using Cons.prems by (simp_all add: Iterator_Next_def)
      have d: "drain it got = drain (Iterator_Next it) (got @ [(k, v)])"
        using True kv by (subst drain.simps) simp
      have "session (ev # es) (s, it, got) = session es (s, Iterator_Next it, got @ [(k, v)])"
        using Read True kv by simp
      then show ?thesis
        using Cons.IH [OF nx, of s "got @ [(k, v)]"] d Read by simp
    qed
  qed
qed

lemma NewIterator_shape:
  "ikeys (Iterator_SeekGE [] (Skiplist_NewIterator s)) = map fst (snapshot (entries s) (keys s)) \<and>
   ivals (Iterator_SeekGE [] (Skiplist_NewIterator s)) = map snd (snapshot (entries s) (keys s)) \<and>
   idx (Iterator_SeekGE [] (Skiplist_NewIterator s)) = 0"
  by (simp add: Iterator_SeekGE_def Skiplist_NewIterator_def Iterator_Next_def Let_def
      SeekGE_loop_empty)

lemma drain_NewIterator:
  "drain (Iterator_SeekGE [] (Skiplist_NewIterator s)) [] = Ok (snapshot (entries s) (keys s))"
  using drain_all [of "Iterator_SeekGE [] (Skiplist_NewIterator s)" "[]"]
  by (simp add: NewIterator_shape zip_map_fst_snd)

section \<open>Snapshot iteration\<close>

text \<open>
  C8. For every table reached from a fresh one, the iterator made by \<open>NewIterator\<close>,
  positioned by \<open>SeekGE("")\<close> and read to its end, yields a list \<open>out\<close> of key/value
  pairs that is strictly ascending in the keys and holds exactly the pairs that \<open>Get\<close>
  reports on the table at that time. Writes made to the table between the rounds of
  the reading loop, in any number and at any point, leave the yielded list the same.
\<close>

theorem iterator_is_snapshot:
  "\<exists>out. drain (Iterator_SeekGE [] (Skiplist_NewIterator (apply_ops ops (NewSkiplist a)))) [] = Ok out \<and>
     sorted_wrt (<) (map fst out) \<and>
     (\<forall>k v. (k, v) \<in> set out \<longleftrightarrow> Skiplist_Get k (apply_ops ops (NewSkiplist a)) = Some v) \<and>
     (\<exists>it' got'.
        session es (apply_ops ops (NewSkiplist a),
                    Iterator_SeekGE [] (Skiplist_NewIterator (apply_ops ops (NewSkiplist a))), [])
          = Ok (apply_ops (writes es) (apply_ops ops (NewSkiplist a)), it', got') \<and>
        drain it' got' = Ok out)"
proof -
  let ?s = "apply_ops ops (NewSkiplist a)"
  let ?it = "Iterator_SeekGE [] (Skiplist_NewIterator ?s)"
  let ?out = "snapshot (entries ?s) (keys ?s)"
  have wf: "wf_table ?s" by (simp add: wf_apply_ops wf_NewSkiplist)
  have d: "drain ?it [] = Ok ?out" by (rule drain_NewIterator)
  have so: "sorted_wrt (<) (map fst ?out)"
    using wf by (simp add: snapshot_sorted wf_table_def)
  have vis: "\<forall>k v. (k, v) \<in> set ?out \<longleftrightarrow> Skiplist_Get k ?s = Some v"
    using snapshot_Get [OF wf] by simp
  have "length (ivals ?it) = length (ikeys ?it)" "0 \<le> idx ?it"
    by (simp_all add: NewIterator_shape)
  then have "\<exists>it' got'. session es (?s, ?it, []) = Ok (apply_ops (writes es) ?s, it', got') \<and>
      drain it' got' = drain ?it []"
    by (rule session_drain)
  then have se: "\<exists>it' got'. session es (?s, ?it, []) = Ok (apply_ops (writes es) ?s, it', got') \<and>
      drain it' got' = Ok ?out"
    using d by simp
  show ?thesis
    using d so vis se by blast
qed

theorem iterator_is_snapshot_witness:
  "drain (Iterator_SeekGE [] (Skiplist_NewIterator S2_table)) [] = Ok [(''a'', ''1''), (''b'', ''2'')] \<and>
   Skiplist_Get ''b'' (apply_ops (writes S2_events) S2_table) = None \<and>
   Skiplist_Get ''c'' (apply_ops (writes S2_events) S2_table) = Some ''3'' \<and>
   (\<exists>it' got'.
      session S2_events (S2_table, Iterator_SeekGE [] (Skiplist_NewIterator S2_table), [])
        = Ok (apply_ops (writes S2_events) S2_table, it', got') \<and>
      drain it' got' = Ok [(''a'', ''1''), (''b'', ''2'')])"
proof -
  have d: "drain (Iterator_SeekGE [] (Skiplist_NewIterator S2_table)) [] = Ok [(''a'', ''1''), (''b'', ''2'')]"
    by code_simp
  have g: "Skiplist_Get ''b'' (apply_ops (writes S2_events) S2_table) = None"
    "Skiplist_Get ''c'' (apply_ops (writes S2_events) S2_table) = Some ''3''"
    by code_simp+
  show ?thesis
    using iterator_is_snapshot [of "[OpPut ''a'' ''1'' 1, OpPut ''b'' ''2'' 2]" None S2_events] d g
    unfolding S2_table_def [symmetric] by auto
qed

section \<open>Evaluating runs of the controller\<close>

text \<open>
  Runs on concrete inputs are evaluated by rewriting with the definitions (the arena's
  capacity is too large a number for evaluation by successor arithmetic).
\<close>

lemmas mt_eval = apply_mops_def Memtable_Put_def Memtable_Delete_def Memtable_Get_def
  PopImmutable_def flip_if_due_def flip_due_def projected_def NewMemtable_def NewSkiplist_def
  NewArena_def Skiplist_Put_def Skiplist_Delete_def Skiplist_Get_def seq_rejected_def Copy_def
  Alloc_def ensure_def track_key_def keyPresent_def SearchStrings_def Search.simps sortKeys_def
  Let_def word_sless_alt clone_def

lemmas it_eval = Iterator_Next_def advance_def peek_def
  Iterator_Valid_def Iterator_Key_def Iterator_Value_def merged_Valid_def merged_Key_def
  merged_Value_def merged_Next_def advanceFromCurrentKey_def skip_equal_def str_def

section \<open>The sealed table\<close>

lemma Skiplist_Put_success: "fst (Skiplist_Put k v sq s) = None"
  using apply_op_success [of "OpPut k v sq" s] by simp

lemma Skiplist_Delete_success: "fst (Skiplist_Delete k sq s) = None"
  using apply_op_success [of "OpDelete k sq" s] by simp

lemma Memtable_Put_eq:
  "snd (Memtable_Put k v sq w) =
     \<lparr>heap = (heap (flip_if_due k v w))[current (mem (flip_if_due k v w)) :=
          snd (Skiplist_Put k v sq (heap (flip_if_due k v w) ! current (mem (flip_if_due k v w))))],
      mem = (mem (flip_if_due k v w))\<lparr>sizeBytes :=
          sizeBytes (mem (flip_if_due k v w)) + of_nat (length k) + of_nat (length v)\<rparr>\<rparr>"
proof -
  obtain e t where p: "Skiplist_Put k v sq (heap (flip_if_due k v w) ! current (mem (flip_if_due k v w))) = (e, t)"
    by (cases "Skiplist_Put k v sq (heap (flip_if_due k v w) ! current (mem (flip_if_due k v w)))")
  then have "e = None" using Skiplist_Put_success [of k v sq "heap (flip_if_due k v w) ! current (mem (flip_if_due k v w))"] by simp
  then show ?thesis using p by (simp add: Memtable_Put_def Let_def)
qed

lemma Memtable_Delete_eq:
  "snd (Memtable_Delete k sq w) =
     w\<lparr>heap := (heap w)[current (mem w) := snd (Skiplist_Delete k sq (heap w ! current (mem w)))]\<rparr>"
  by (simp add: Memtable_Delete_def Let_def split: prod.splits)

lemma heap_ok_New: "heap_ok (NewMemtable th)"
  by (simp add: heap_ok_def NewMemtable_def)

lemma heap_ok_flip: "heap_ok w \<Longrightarrow> heap_ok (flip_if_due k v w)"
  by (auto simp: heap_ok_def flip_if_due_def)

lemma heap_ok_apply_mop: "heap_ok w \<Longrightarrow> heap_ok (apply_mop x w)"
proof (cases x)
  case (MPut k v sq)
  assume "heap_ok w"
  then have "heap_ok (flip_if_due k v w)" by (rule heap_ok_flip)
  then show ?thesis using MPut by (simp add: Memtable_Put_eq heap_ok_def)
next
  case (MDelete k sq)
  assume "heap_ok w"
  then show ?thesis using MDelete by (simp add: Memtable_Delete_eq heap_ok_def)
next
  case MPop
  assume "heap_ok w"
  then show ?thesis using MPop by (simp add: PopImmutable_def heap_ok_def)
qed

lemma heap_ok_apply_mops: "heap_ok w \<Longrightarrow> heap_ok (apply_mops ops w)"
proof (induction ops arbitrary: w)
  case Nil
  then show ?case by (simp add: apply_mops_def)
next
  case (Cons x xs)
  then show ?case using heap_ok_apply_mop [of w x] by (simp add: apply_mops_def)
qed

lemma no_flip_when_imm: "imm (mem w) = Some i \<Longrightarrow> flip_if_due k v w = w"
  by (simp add: flip_if_due_def flip_due_def)

lemma frozen_step:
  assumes "heap_ok w" "imm (mem w) = Some i" "x \<noteq> MPop"
  shows "imm (mem (apply_mop x w)) = Some i \<and> heap (apply_mop x w) ! i = heap w ! i \<and>
         length (heap (apply_mop x w)) = length (heap w) \<and>
         current (mem (apply_mop x w)) = current (mem w)"
proof (cases x)
  case (MPut k v sq)
  have "i \<noteq> current (mem w)" using assms by (simp add: heap_ok_def)
  then show ?thesis
    using MPut assms(2) by (simp add: Memtable_Put_eq no_flip_when_imm)
next
  case (MDelete k sq)
  have "i \<noteq> current (mem w)" using assms by (simp add: heap_ok_def)
  then show ?thesis
    using MDelete assms(2) by (simp add: Memtable_Delete_eq)
next
  case MPop
  then show ?thesis using assms(3) by simp
qed

lemma frozen_run:
  "heap_ok w \<Longrightarrow> imm (mem w) = Some i \<Longrightarrow> MPop \<notin> set later \<Longrightarrow>
   imm (mem (apply_mops later w)) = Some i \<and> heap (apply_mops later w) ! i = heap w ! i \<and>
   length (heap (apply_mops later w)) = length (heap w) \<and>
   current (mem (apply_mops later w)) = current (mem w)"
proof (induction later arbitrary: w)
  case Nil
  then show ?case by (simp add: apply_mops_def)
next
  case (Cons x xs)
  have x: "x \<noteq> MPop" "MPop \<notin> set xs" using Cons.prems(3) by auto
  have st: "imm (mem (apply_mop x w)) = Some i \<and> heap (apply_mop x w) ! i = heap w ! i \<and>
         length (heap (apply_mop x w)) = length (heap w) \<and>
         current (mem (apply_mop x w)) = current (mem w)"
    using frozen_step [OF Cons.prems(1) Cons.prems(2) x(1)] .
  have ok: "heap_ok (apply_mop x w)" using Cons.prems(1) by (rule heap_ok_apply_mop)
  have "apply_mops (x # xs) w = apply_mops xs (apply_mop x w)" by (simp add: apply_mops_def)
  then show ?case
    using Cons.IH [OF ok _ x(2)] st by simp
qed

text \<open>
  C9. The immutable slot holds at most one table (it is one optional pointer). In every
  state reached from a new controller in which the slot holds table \<open>i\<close> (sealed there by
  a flip), \<open>i\<close> is not the current table, and after any further Puts and Deletes the slot
  still holds \<open>i\<close>, table \<open>i\<close> is as it was, and no table has been allocated (no flip
  has happened); \<open>PopImmutable\<close> then returns \<open>i\<close> and clears the slot.
\<close>

theorem immutable_is_frozen:
  "imm (mem (apply_mops ops (NewMemtable th))) = Some i \<and> MPop \<notin> set later \<longrightarrow>
     i \<noteq> current (mem (apply_mops ops (NewMemtable th))) \<and>
     imm (mem (apply_mops later (apply_mops ops (NewMemtable th)))) = Some i \<and>
     heap (apply_mops later (apply_mops ops (NewMemtable th))) ! i
       = heap (apply_mops ops (NewMemtable th)) ! i \<and>
     length (heap (apply_mops later (apply_mops ops (NewMemtable th))))
       = length (heap (apply_mops ops (NewMemtable th))) \<and>
     imm (mem (snd (PopImmutable (apply_mops later (apply_mops ops (NewMemtable th)))))) = None \<and>
     fst (PopImmutable (apply_mops later (apply_mops ops (NewMemtable th)))) = Some i"
proof
  let ?w = "apply_mops ops (NewMemtable th)"
  assume h: "imm (mem ?w) = Some i \<and> MPop \<notin> set later"
  have ok: "heap_ok ?w" by (simp add: heap_ok_apply_mops heap_ok_New)
  then have "i \<noteq> current (mem ?w)" using h by (simp add: heap_ok_def)
  moreover have "imm (mem (apply_mops later ?w)) = Some i \<and>
     heap (apply_mops later ?w) ! i = heap ?w ! i \<and>
     length (heap (apply_mops later ?w)) = length (heap ?w) \<and>
     current (mem (apply_mops later ?w)) = current (mem ?w)"
    using frozen_run [OF ok] h by simp
  ultimately show "i \<noteq> current (mem ?w) \<and>
     imm (mem (apply_mops later ?w)) = Some i \<and>
     heap (apply_mops later ?w) ! i = heap ?w ! i \<and>
     length (heap (apply_mops later ?w)) = length (heap ?w) \<and>
     imm (mem (snd (PopImmutable (apply_mops later ?w)))) = None \<and>
     fst (PopImmutable (apply_mops later ?w)) = Some i"
    by (simp add: PopImmutable_def)
qed

theorem immutable_is_frozen_witness:
  "imm (mem (apply_mops S9_ops (NewMemtable 4))) = Some 0 \<and> MPop \<notin> set S9_later \<and>
   imm (mem (apply_mops S9_later (apply_mops S9_ops (NewMemtable 4)))) = Some 0 \<and>
   heap (apply_mops S9_later (apply_mops S9_ops (NewMemtable 4))) ! 0
       = heap (apply_mops S9_ops (NewMemtable 4)) ! 0 \<and>
   length (heap (apply_mops S9_later (apply_mops S9_ops (NewMemtable 4)))) = 2"
proof -
  have a: "imm (mem (apply_mops S9_ops (NewMemtable 4))) = Some 0"
    by (simp add: S9_ops_def mt_eval)
  have b: "MPop \<notin> set S9_later" by (simp add: S9_later_def)
  have c: "length (heap (apply_mops S9_ops (NewMemtable 4))) = 2"
    by (simp add: S9_ops_def mt_eval)
  show ?thesis
    using immutable_is_frozen [of S9_ops 4 0 S9_later] a b c by simp
qed

section \<open>Reads across the two generations\<close>

lemma S3_explicit:
  "S3_state =
     \<lparr>heap = [\<lparr>entries = [''a'' \<mapsto> \<lparr>seq = 1, val = ''1'', deleted = False\<rparr>], keys = [''a''],
                arena = Some \<lparr>buf_len = 1048576, off = 1\<rparr>\<rparr>,
              \<lparr>entries = [''bb'' \<mapsto> \<lparr>seq = 2, val = ''22'', deleted = False\<rparr>,
                           ''a'' \<mapsto> \<lparr>seq = 3, val = [], deleted = True\<rparr>],
                keys = [''a'', ''bb''], arena = Some \<lparr>buf_len = 1048576, off = 2\<rparr>\<rparr>],
      mem = \<lparr>current = 1, imm = Some 0, threshold = 4, arenaCap = 1048576, sizeBytes = 4\<rparr>\<rparr>"
  by (simp add: S3_state_def mt_eval)

text \<open>
  C1, at its failing input. In the state of scenario S3 (threshold 4; Put a, Put bb,
  Delete a) the current table holds a tombstone for \<open>a\<close> and the sealed one holds the
  value \<open>1\<close>; \<open>Get("a")\<close> returns that value as present, where the claim says absent.
\<close>

theorem tombstone_in_current_does_not_shadow:
  "current (mem S3_state) = 1 \<and> imm (mem S3_state) = Some 0 \<and>
   entries (heap S3_state ! 1) ''a'' = Some \<lparr>seq = 3, val = [], deleted = True\<rparr> \<and>
   Skiplist_Get ''a'' (heap S3_state ! 0) = Some ''1'' \<and>
   Memtable_Get ''a'' S3_state = Some ''1'' \<and>
   Memtable_Get ''bb'' S3_state = Some ''22''"
  by (simp add: S3_explicit Memtable_Get_def Skiplist_Get_def clone_def)

lemma Get_falls_through_tombstone:
  "entries (heap w ! current (mem w)) k = Some e \<Longrightarrow> deleted e \<Longrightarrow> imm (mem w) = Some i \<Longrightarrow>
   Memtable_Get k w = Skiplist_Get k (heap w ! i)"
  by (simp add: Memtable_Get_def Skiplist_Get_def)

lemma S4_explicit:
  "S4_state =
     \<lparr>heap = [\<lparr>entries = [''a'' \<mapsto> \<lparr>seq = 1, val = ''1'', deleted = False\<rparr>], keys = [''a''],
                arena = Some \<lparr>buf_len = 1048576, off = 1\<rparr>\<rparr>,
              \<lparr>entries = [''bb'' \<mapsto> \<lparr>seq = 2, val = ''22'', deleted = False\<rparr>,
                           ''a'' \<mapsto> \<lparr>seq = 3, val = [], deleted = True\<rparr>,
                           ''b'' \<mapsto> \<lparr>seq = 3, val = ''2'', deleted = False\<rparr>],
                keys = [''a'', ''b'', ''bb''], arena = Some \<lparr>buf_len = 1048576, off = 3\<rparr>\<rparr>],
      mem = \<lparr>current = 1, imm = Some 0, threshold = 4, arenaCap = 1048576, sizeBytes = 6\<rparr>\<rparr>"
  by (simp add: S4_state_def S3_explicit mt_eval)

lemma S4_iterator:
  "Memtable_NewIterator S4_state =
     \<lparr>curIt = Some \<lparr>ikeys = [''b'', ''bb''], ivals = [''2'', ''22''], idx = - 1\<rparr>,
      immIt = Some \<lparr>ikeys = [''a''], ivals = [''1''], idx = - 1\<rparr>,
      curK = None, immK = None, curV = None, immV = None, valid = False\<rparr>"
  by (simp add: S4_explicit Memtable_NewIterator_def Skiplist_NewIterator_def clone_def)

lemma S4_seek:
  "merged_SeekGE [] (Memtable_NewIterator S4_state) =
     Ok \<lparr>curIt = Some \<lparr>ikeys = [''b'', ''bb''], ivals = [''2'', ''22''], idx = 0\<rparr>,
      immIt = Some \<lparr>ikeys = [''a''], ivals = [''1''], idx = 0\<rparr>,
      curK = Some ''b'', immK = Some ''a'', curV = Some ''2'', immV = Some ''1'', valid = True\<rparr>"
  by (simp add: S4_iterator merged_SeekGE_def Iterator_SeekGE_def SeekGE_loop_empty it_eval)

text \<open>
  C2, at its failing input. In the state of scenario S4 the merged iterator, after
  \<open>SeekGE("")\<close> and \<open>Next\<close> until invalid, yields the key \<open>b\<close> twice, where the claim says
  each key at most once and exactly \<open>[(b, 2), (bb, 22)]\<close>.
\<close>

theorem merged_scan_S4_repeats_key:
  "merged_scan 10 [] S4_state = Some (Ok [(''b'', ''2''), (''b'', ''2''), (''bb'', ''22'')])"
  unfolding merged_scan_def S4_seek by (simp add: it_eval eval_nat_numeral)

section \<open>The byte counter\<close>







section \<open>Byte order and framing\<close>

lemma length_PutUint32 [simp]: "length (PutUint32 v) = 4"
  by (simp add: PutUint32_def)

lemma length_PutUint64 [simp]: "length (PutUint64 v) = 8"
  by (simp add: PutUint64_def)

lemma Uint32_PutUint32: "Uint32 (PutUint32 v) = v"
  unfolding Uint32_def PutUint32_def
proof (rule bit_word_eqI)
  fix n assume "n < LENGTH(32)"
  then consider "n < 8" | "8 \<le> n" "n < 16" | "16 \<le> n" "n < 24" | "24 \<le> n" "n < 32"
    by fastforce
  then show "bit (ucast ([ucast (drop_bit 24 v), ucast (drop_bit 16 v), ucast (drop_bit 8 v), ucast v :: byte] ! 3) OR
          push_bit 8 (ucast ([ucast (drop_bit 24 v), ucast (drop_bit 16 v), ucast (drop_bit 8 v), ucast v :: byte] ! 2)) OR
          push_bit 16 (ucast ([ucast (drop_bit 24 v), ucast (drop_bit 16 v), ucast (drop_bit 8 v), ucast v :: byte] ! 1)) OR
          push_bit 24 (ucast ([ucast (drop_bit 24 v), ucast (drop_bit 16 v), ucast (drop_bit 8 v), ucast v :: byte] ! 0)) :: 32 word) n = bit v n"
    by cases (auto simp add: bit_simps)
qed

lemma bit_byte64:
  "bit (push_bit k (ucast (ucast (drop_bit k v) :: 8 word)) :: 64 word) n \<longleftrightarrow>
     k \<le> n \<and> n < k + 8 \<and> n < 64 \<and> bit (v :: 64 word) n"
  by (auto simp: bit_simps)

lemma bit_byte64_low:
  "bit (ucast (ucast v :: 8 word) :: 64 word) n \<longleftrightarrow> n < 8 \<and> bit (v :: 64 word) n"
  by (auto simp: bit_simps)

lemma Uint64_PutUint64: "Uint64 (PutUint64 v) = v"
proof (rule bit_word_eqI)
  fix n assume n: "n < LENGTH(64)"
  have "bit (Uint64 (PutUint64 v)) n \<longleftrightarrow>
     (n < 8 \<or> (8 \<le> n \<and> n < 8 + 8) \<or> (16 \<le> n \<and> n < 16 + 8) \<or> (24 \<le> n \<and> n < 24 + 8) \<or>
      (32 \<le> n \<and> n < 32 + 8) \<or> (40 \<le> n \<and> n < 40 + 8) \<or> (48 \<le> n \<and> n < 48 + 8) \<or>
      (56 \<le> n \<and> n < 56 + 8)) \<and> bit v n"
    using n unfolding Uint64_def PutUint64_def
    by (simp add: bit_or_iff bit_byte64 bit_byte64_low) blast
  moreover have "n < 8 \<or> (8 \<le> n \<and> n < 8 + 8) \<or> (16 \<le> n \<and> n < 16 + 8) \<or> (24 \<le> n \<and> n < 24 + 8) \<or>
      (32 \<le> n \<and> n < 32 + 8) \<or> (40 \<le> n \<and> n < 40 + 8) \<or> (48 \<le> n \<and> n < 48 + 8) \<or>
      (56 \<le> n \<and> n < 56 + 8)"
    using n by simp arith
  ultimately show "bit (Uint64 (PutUint64 v)) n = bit v n" by simp
qed

lemma PutUint32_Uint32: "length b = 4 \<Longrightarrow> PutUint32 (Uint32 b) = b"
proof -
  assume "length b = 4"
  then obtain b0 b1 b2 b3 where b: "b = [b0, b1, b2, b3]"
    by (auto simp: length_Suc_conv eval_nat_numeral)
  have "ucast (drop_bit 24 (Uint32 b)) = b0"
    unfolding b Uint32_def by (rule bit_word_eqI) (auto simp add: bit_simps dest: bit_imp_le_length)
  moreover have "ucast (drop_bit 16 (Uint32 b)) = b1"
    unfolding b Uint32_def by (rule bit_word_eqI) (auto simp add: bit_simps dest: bit_imp_le_length)
  moreover have "ucast (drop_bit 8 (Uint32 b)) = b2"
    unfolding b Uint32_def by (rule bit_word_eqI) (auto simp add: bit_simps dest: bit_imp_le_length)
  moreover have "ucast (Uint32 b) = b3"
    unfolding b Uint32_def by (rule bit_word_eqI) (auto simp add: bit_simps dest: bit_imp_le_length)
  ultimately show ?thesis by (simp add: PutUint32_def b)
qed

lemma length_payload_of: "length (payload_of r) = 17 + length (Key r) + length (Value r)"
  by (simp add: payload_of_def)

lemma length_Encode: "length (Encode r) = 25 + length (Key r) + length (Value r)"
  by (simp add: Encode_def length_payload_of)

lemma unat_of_nat32: "n < 2 ^ 32 \<Longrightarrow> unat (of_nat n :: 32 word) = n"
  by (simp add: unat_of_nat)

lemma subslice_at:
  "length pre = lo \<Longrightarrow> hi = lo + length mid \<Longrightarrow> subslice (pre @ mid @ post) lo hi = Some mid"
  by (simp add: subslice_def)



lemma decode_fields_frame:
  assumes "length (Key r) < 2 ^ 32" "length (Value r) < 2 ^ 32"
  shows "decode_fields (PutUint32 n @ PutUint32 c @ payload_of r) = Ok r"
proof -
  let ?buf = "PutUint32 n @ PutUint32 c @ payload_of r"
  have kl: "unat (of_nat (length (Key r)) :: 32 word) = length (Key r)"
    using assms by (simp add: unat_of_nat32)
  have vl: "unat (of_nat (length (Value r)) :: 32 word) = length (Value r)"
    using assms by (simp add: unat_of_nat32)
  have s1: "index ?buf 8 = Some (Type r)"
    by (simp add: index_def payload_of_def nth_append)
  have s2: "subslice ?buf 9 17 = Some (PutUint64 (SeqNum r))"
    using subslice_at [of "PutUint32 n @ PutUint32 c @ [Type r]" 9 17 "PutUint64 (SeqNum r)"]
    by (simp add: payload_of_def)
  have s3: "subslice ?buf 17 21 = Some (PutUint32 (of_nat (length (Key r))))"
    using subslice_at [of "PutUint32 n @ PutUint32 c @ [Type r] @ PutUint64 (SeqNum r)" 17 21
        "PutUint32 (of_nat (length (Key r)))"]
    by (simp add: payload_of_def)
  have s4: "subslice ?buf 21 (21 + length (Key r)) = Some (Key r)"
    using subslice_at [of "PutUint32 n @ PutUint32 c @ [Type r] @ PutUint64 (SeqNum r) @
        PutUint32 (of_nat (length (Key r)))" 21 "21 + length (Key r)" "Key r"]
    by (simp add: payload_of_def)
  have s5: "subslice ?buf (21 + length (Key r)) (21 + length (Key r) + 4) =
      Some (PutUint32 (of_nat (length (Value r))))"
    using subslice_at [of "PutUint32 n @ PutUint32 c @ [Type r] @ PutUint64 (SeqNum r) @
        PutUint32 (of_nat (length (Key r))) @ Key r" "21 + length (Key r)" "21 + length (Key r) + 4"
        "PutUint32 (of_nat (length (Value r)))" "Value r"]
    by (simp add: payload_of_def)
  have s6: "subslice ?buf (21 + length (Key r) + 4) (21 + length (Key r) + 4 + length (Value r)) = Some (Value r)"
    using subslice_at [of "PutUint32 n @ PutUint32 c @ [Type r] @ PutUint64 (SeqNum r) @
        PutUint32 (of_nat (length (Key r))) @ Key r @ PutUint32 (of_nat (length (Value r)))"
        "21 + length (Key r) + 4" "21 + length (Key r) + 4 + length (Value r)" "Value r" "[]"]
    by (simp add: payload_of_def)
  show ?thesis
    unfolding decode_fields_def
    by (simp only: s1 s2 s3 Let_def Uint32_PutUint32 kl s4 s5 vl s6 Uint64_PutUint64 option.case)
      simp
qed

lemma Decode_frame:
  assumes "25 + length (Key r) + length (Value r) < 2 ^ 32"
  shows "Decode (PutUint32 (of_nat (17 + length (Key r) + length (Value r))) @ PutUint32 c @ payload_of r) =
     (if c \<noteq> ChecksumIEEE (payload_of r) then Err ChecksumMismatch else Ok r)"
proof -
  let ?n = "17 + length (Key r) + length (Value r)"
  let ?buf = "PutUint32 (of_nat ?n) @ PutUint32 c @ payload_of r"
  have "unat (of_nat (8 + ?n) :: 32 word) = 8 + ?n"
    by (rule unat_of_nat32) (use assms in simp)
  then have u: "unat (8 + of_nat ?n :: 32 word) = 8 + ?n" by simp
  have len: "length ?buf = 8 + ?n" by (simp add: length_payload_of)
  have pl: "Uint32 (take 4 ?buf) = of_nat ?n" by (simp add: Uint32_PutUint32)
  have ck: "Uint32 (take 4 (drop 4 ?buf)) = c" by (simp add: Uint32_PutUint32)
  have s0: "subslice ?buf 8 (8 + ?n) = Some (payload_of r)"
    by (simp add: subslice_def length_payload_of)
  have f: "decode_fields ?buf = Ok r"
    by (rule decode_fields_frame) (use assms in simp_all)
  show ?thesis
    unfolding Decode_def
    by (simp only: len pl ck Let_def u s0 f option.case) simp
qed

lemma Decode_Encode:
  "25 + length (Key r) + length (Value r) < 2 ^ 32 \<Longrightarrow> Decode (Encode r) = Ok r"
  using Decode_frame [of r "ChecksumIEEE (payload_of r)"] by (simp add: Encode_def)

lemma Decode_zeros: "Decode [0, 0, 0, 0, 0, 0, 0, 0] = Panic"
  by (simp add: Decode_def Uint32_def subslice_def ChecksumIEEE_def decode_fields_def index_def)

lemma Decode_wrap: "Decode [0xFF, 0xFF, 0xFF, 0xFB, 0, 0, 0, 0] = Panic"
  by (simp add: Decode_def Uint32_def subslice_def)

lemma Decode_wraps_to_panic:
  assumes "length buf \<ge> 8" "Uint32 (take 4 buf) = - 8"
  shows "Decode buf = Panic"
  using assms by (simp add: Decode_def subslice_def)

lemma Encode_huge:
  assumes "17 + length (Key r) + length (Value r) = 2 ^ 33 - 8"
  shows "Decode (Encode r) = Panic"
proof (rule Decode_wraps_to_panic)
  show "8 \<le> length (Encode r)" by (simp add: length_Encode)
  have ps: "1 + 8 + 4 + length (Key r) + 4 + length (Value r) = 2 ^ 33 - 8"
    using assms by simp
  have e: "Encode r = PutUint32 (of_nat (2 ^ 33 - 8)) @ PutUint32 (ChecksumIEEE (payload_of r)) @ payload_of r"
    by (simp only: Encode_def Let_def ps)
  have "(of_nat (2 ^ 33 - 8) :: 32 word) = - 8"
    by simp
  then show "Uint32 (take 4 (Encode r)) = - 8"
    by (simp only: e) (simp add: Uint32_PutUint32)
qed

section \<open>The checksum\<close>

text \<open>
  One shift of the register is injective (the polynomial's top bit tells whether the
  bit shifted out was set), so messages of equal length that differ in one byte have
  different checksums.
\<close>

lemma crc_step_inj: "crc_step a = crc_step b \<Longrightarrow> a = b"
proof -
  assume h: "crc_step a = crc_step b"
  have top: "\<And>c. bit (crc_step c) 31 = bit c 0"
    by (auto simp add: crc_step_def bit_simps dest: bit_imp_le_length)
  have rest: "\<And>c n. n < 31 \<Longrightarrow>
      bit c (Suc n) = (bit (crc_step c) n \<noteq> (bit c 0 \<and> bit (0xEDB88320 :: 32 word) n))"
    by (auto simp add: crc_step_def bit_simps)
  show "a = b"
  proof (rule bit_word_eqI)
    fix n assume n: "n < LENGTH(32)"
    show "bit a n = bit b n"
    proof (cases n)
      case 0
      then show ?thesis using top [of a] top [of b] h by simp
    next
      case (Suc m)
      then have "m < 31" using n by simp
      then show ?thesis using rest [of m a] rest [of m b] top [of a] top [of b] h Suc by simp
    qed
  qed
qed

lemma crc_steps_inj: "(crc_step ^^ k) a = (crc_step ^^ k) b \<Longrightarrow> a = b"
  by (induction k) (auto dest: crc_step_inj)

lemma xor_cancel_right: "a XOR c = b XOR c \<Longrightarrow> a = b" for a b c :: "32 word"
proof -
  assume "a XOR c = b XOR c"
  then have "(a XOR c) XOR c = (b XOR c) XOR c" by simp
  then show "a = b" by (simp add: xor.assoc)
qed

lemma xor_cancel_left: "c XOR a = c XOR b \<Longrightarrow> a = b" for a b c :: "32 word"
  using xor_cancel_right [of a c b] by (simp add: xor.commute)

lemma crc_byte_inj_state: "crc_byte a x = crc_byte b x \<Longrightarrow> a = b"
  unfolding crc_byte_def by (drule crc_steps_inj) (rule xor_cancel_right)

lemma ucast_byte_inj: "(ucast (x :: 8 word) :: 32 word) = ucast y \<Longrightarrow> x = y"
proof (rule bit_word_eqI)
  fix n assume e: "(ucast x :: 32 word) = ucast y" and n: "n < LENGTH(8)"
  have "bit (ucast x :: 32 word) n = bit x n" "bit (ucast y :: 32 word) n = bit y n"
    using n by (simp_all add: bit_simps)
  then show "bit x n = bit y n" using e by simp
qed

lemma crc_byte_inj_byte: "crc_byte c x = crc_byte c y \<Longrightarrow> x = y"
  unfolding crc_byte_def by (drule crc_steps_inj) (drule xor_cancel_left, rule ucast_byte_inj)

lemma crc_fold_inj: "foldl crc_byte a p = foldl crc_byte b p \<Longrightarrow> a = b"
  by (induction p arbitrary: a b) (auto dest: crc_byte_inj_state)

lemma crc_detects_byte:
  assumes "i < length p" "x \<noteq> p ! i"
  shows "ChecksumIEEE (p[i := x]) \<noteq> ChecksumIEEE p"
proof
  assume e: "ChecksumIEEE (p[i := x]) = ChecksumIEEE p"
  have p: "p = take i p @ p ! i # drop (Suc i) p"
    using assms(1) by (simp add: id_take_nth_drop)
  have q: "p[i := x] = take i p @ x # drop (Suc i) p"
    using assms(1) by (simp add: upd_conv_take_nth_drop)
  let ?s = "foldl crc_byte (NOT 0) (take i p)"
  have "foldl crc_byte (NOT 0) (take i p @ x # drop (Suc i) p) =
        foldl crc_byte (NOT 0) (take i p @ p ! i # drop (Suc i) p)"
    using e unfolding ChecksumIEEE_def q by (subst (asm) (2) p) simp
  then have "foldl crc_byte (crc_byte ?s x) (drop (Suc i) p) =
        foldl crc_byte (crc_byte ?s (p ! i)) (drop (Suc i) p)"
    by simp
  then have "crc_byte ?s x = crc_byte ?s (p ! i)" by (rule crc_fold_inj)
  then have "x = p ! i" by (rule crc_byte_inj_byte)
  then show False using assms(2) by simp
qed

lemma flipped_byte_differs: "j < 8 \<Longrightarrow> (b :: 8 word) XOR push_bit j 1 \<noteq> b"
proof
  assume j: "j < 8" and e: "b XOR push_bit j 1 = b"
  have "bit (b XOR push_bit j 1) j = (\<not> bit b j)"
    using j by (simp add: bit_simps)
  then show False using e by simp
qed

lemma Uint32_inj: "length a = 4 \<Longrightarrow> length b = 4 \<Longrightarrow> Uint32 a = Uint32 b \<Longrightarrow> a = b"
  by (metis PutUint32_Uint32)

lemma Decode_header:
  assumes "length cb = 4" "8 + length p < 2 ^ 32"
  shows "Decode (PutUint32 (of_nat (length p)) @ cb @ p) =
     (if Uint32 cb \<noteq> ChecksumIEEE p then Err ChecksumMismatch
      else decode_fields (PutUint32 (of_nat (length p)) @ cb @ p))"
proof -
  let ?buf = "PutUint32 (of_nat (length p)) @ cb @ p"
  have "unat (of_nat (8 + length p) :: 32 word) = 8 + length p"
    by (rule unat_of_nat32) (use assms in simp)
  then have u: "unat (8 + of_nat (length p) :: 32 word) = 8 + length p" by simp
  have len: "length ?buf = 8 + length p" using assms by simp
  have pl: "Uint32 (take 4 ?buf) = of_nat (length p)" by (simp add: Uint32_PutUint32)
  have ck: "Uint32 (take 4 (drop 4 ?buf)) = Uint32 cb" using assms by simp
  have s0: "subslice ?buf 8 (8 + length p) = Some p"
    using assms by (simp add: subslice_def)
  show ?thesis
    unfolding Decode_def
    by (simp only: len pl ck Let_def u s0 option.case) simp
qed


lemma Encode_shape:
  "Encode r = PutUint32 (of_nat (length (payload_of r))) @ PutUint32 (ChecksumIEEE (payload_of r)) @ payload_of r"
proof -
  have "1 + 8 + 4 + length (Key r) + 4 + length (Value r) = length (payload_of r)"
    by (simp add: length_payload_of)
  then show ?thesis by (simp only: Encode_def Let_def)
qed

lemma frame_payload_at:
  assumes "length a = 4" "length b = 4" "8 \<le> i"
  shows "(a @ b @ p) ! i = p ! (i - 8)" "(a @ b @ p)[i := x] = a @ b @ p[i - 8 := x]"
proof -
  have n: "\<not> i < 4" "\<not> i - 4 < 4" "i - 4 - 4 = i - 8" using assms(3) by arith+
  show "(a @ b @ p) ! i = p ! (i - 8)"
    using assms(1,2) n by (simp add: nth_append)
  show "(a @ b @ p)[i := x] = a @ b @ p[i - 8 := x]"
    using assms(1,2) n by (simp add: list_update_append)
qed

lemma frame_checksum_at:
  assumes "length a = 4" "length b = 4" "4 \<le> i" "i < 8"
  shows "(a @ b @ p) ! i = b ! (i - 4)" "(a @ b @ p)[i := x] = a @ b[i - 4 := x] @ p"
proof -
  have n: "\<not> i < 4" "i - 4 < 4" using assms(3,4) by arith+
  show "(a @ b @ p) ! i = b ! (i - 4)"
    using assms(1,2) n by (simp add: nth_append)
  show "(a @ b @ p)[i := x] = a @ b[i - 4 := x] @ p"
    using assms(1,2) n by (simp add: list_update_append)
qed

lemma flip_in_payload:
  assumes "25 + length (Key r) + length (Value r) < 2 ^ 32" "8 \<le> i" "i < length (Encode r)" "j < 8"
  shows "Decode (flip_frame_bit (Encode r) i j) = Err ChecksumMismatch"
proof -
  let ?p = "payload_of r"
  let ?x = "?p ! (i - 8) XOR push_bit j 1"
  have il: "i - 8 < length ?p"
    using assms(2,3) by (simp add: length_Encode length_payload_of)
  have f: "flip_frame_bit (Encode r) i j =
      PutUint32 (of_nat (length (?p[i - 8 := ?x]))) @ PutUint32 (ChecksumIEEE ?p) @ ?p[i - 8 := ?x]"
    unfolding flip_frame_bit_def Encode_shape
    using assms(2) by (simp add: frame_payload_at)
  have d: "ChecksumIEEE (?p[i - 8 := ?x]) \<noteq> ChecksumIEEE ?p"
  proof (rule crc_detects_byte)
    show "i - 8 < length ?p" by (rule il)
    show "?x \<noteq> ?p ! (i - 8)" using assms(4) by (rule flipped_byte_differs)
  qed
  have "8 + length (?p[i - 8 := ?x]) < 2 ^ 32"
    using assms(1) by (simp add: length_payload_of)
  then have "Decode (PutUint32 (of_nat (length (?p[i - 8 := ?x]))) @ PutUint32 (ChecksumIEEE ?p) @ ?p[i - 8 := ?x]) =
     (if Uint32 (PutUint32 (ChecksumIEEE ?p)) \<noteq> ChecksumIEEE (?p[i - 8 := ?x]) then Err ChecksumMismatch
      else decode_fields (PutUint32 (of_nat (length (?p[i - 8 := ?x]))) @ PutUint32 (ChecksumIEEE ?p) @ ?p[i - 8 := ?x]))"
    by (intro Decode_header) simp
  then show ?thesis
    using d by (simp only: f Uint32_PutUint32) simp
qed

lemma flip_in_checksum:
  assumes "25 + length (Key r) + length (Value r) < 2 ^ 32" "4 \<le> i" "i < 8" "j < 8"
  shows "Decode (flip_frame_bit (Encode r) i j) = Err ChecksumMismatch"
proof -
  let ?p = "payload_of r"
  let ?c = "PutUint32 (ChecksumIEEE ?p)"
  let ?x = "?c ! (i - 4) XOR push_bit j 1"
  have f: "flip_frame_bit (Encode r) i j =
      PutUint32 (of_nat (length ?p)) @ ?c[i - 4 := ?x] @ ?p"
    unfolding flip_frame_bit_def Encode_shape
    using assms(2,3) by (simp add: frame_checksum_at)
  have "?c[i - 4 := ?x] \<noteq> ?c"
  proof
    assume "?c[i - 4 := ?x] = ?c"
    then have "?c[i - 4 := ?x] ! (i - 4) = ?c ! (i - 4)" by simp
    then have "?x = ?c ! (i - 4)" using assms(3) by simp
    then show False using assms(4) flipped_byte_differs by blast
  qed
  then have "Uint32 (?c[i - 4 := ?x]) \<noteq> Uint32 ?c"
    using Uint32_inj [of "?c[i - 4 := ?x]" ?c] by auto
  then have d: "Uint32 (?c[i - 4 := ?x]) \<noteq> ChecksumIEEE ?p"
    by (simp add: Uint32_PutUint32)
  have "8 + length ?p < 2 ^ 32"
    using assms(1) by (simp add: length_payload_of)
  then have "Decode (PutUint32 (of_nat (length ?p)) @ ?c[i - 4 := ?x] @ ?p) =
     (if Uint32 (?c[i - 4 := ?x]) \<noteq> ChecksumIEEE ?p then Err ChecksumMismatch
      else decode_fields (PutUint32 (of_nat (length ?p)) @ ?c[i - 4 := ?x] @ ?p))"
    by (intro Decode_header) simp
  then show ?thesis
    using d by (simp only: f) simp
qed

lemma unat_xor_disjoint:
  fixes x y :: "32 word"
  assumes "x AND y = 0"
  shows "unat (x XOR y) = unat x + unat y"
proof -
  have "unat x AND unat y = unat (x AND y)" by (simp add: unsigned_and_eq)
  then have "unat x AND unat y = 0" using assms by simp
  then have "unat x + unat y = unat x XOR unat y" by (rule disjunctive_add_eq_xor)
  then show ?thesis by (simp add: unsigned_xor_eq)
qed

lemma unat_set_clear_bit:
  fixes x :: "32 word"
  assumes "k < 32" "\<not> bit x k"
  shows "unat (x XOR push_bit k 1) = unat x + 2 ^ k"
proof -
  have "x AND push_bit k 1 = 0"
    using assms(2) by (intro bit_word_eqI) (auto simp: bit_simps)
  then have "unat (x XOR push_bit k 1) = unat x + unat (push_bit k 1 :: 32 word)"
    by (rule unat_xor_disjoint)
  moreover have "unat (of_nat (2 ^ k) :: 32 word) = 2 ^ k"
    by (rule unat_of_nat32) (rule power_strict_increasing, use assms(1) in simp_all)
  then have "unat (push_bit k 1 :: 32 word) = 2 ^ k"
    by (simp add: push_bit_of_1)
  ultimately show ?thesis by simp
qed

lemma bit_Uint32:
  "bit (Uint32 [b0, b1, b2, b3]) n \<longleftrightarrow>
     (n < 8 \<and> bit b3 n) \<or> (8 \<le> n \<and> n < 16 \<and> bit b2 (n - 8)) \<or>
     (16 \<le> n \<and> n < 24 \<and> bit b1 (n - 16)) \<or> (24 \<le> n \<and> n < 32 \<and> bit b0 (n - 24))"
  unfolding Uint32_def by (auto simp: bit_simps dest: bit_imp_le_length)

lemma bit_one_bit8: "bit (2 ^ k :: 8 word) n \<longleftrightarrow> n = k \<and> k < 8"
  by (auto simp: bit_simps)

lemma bit_one_bit32: "bit (2 ^ k :: 32 word) n \<longleftrightarrow> n = k \<and> k < 32"
  by (auto simp: bit_simps)

lemma bit_Uint32_nth:
  assumes "length bs = 4"
  shows "bit (Uint32 bs) n \<longleftrightarrow> n < 32 \<and> bit (bs ! (3 - n div 8)) (n mod 8)"
proof -
  obtain b0 b1 b2 b3 where b: "bs = [b0, b1, b2, b3]"
    using assms by (auto simp: length_Suc_conv eval_nat_numeral)
  consider "n < 8" | "8 \<le> n" "n < 16" | "16 \<le> n" "n < 24" | "24 \<le> n" "n < 32" | "32 \<le> n"
    by fastforce
  then show ?thesis
  proof cases
    case 1
    then have "n div 8 = 0" "n mod 8 = n" by simp_all
    then show ?thesis using 1 by (simp add: b bit_Uint32)
  next
    case 2
    then have "n div 8 = 1" "n mod 8 = n - 8" by presburger+
    then show ?thesis using 2 by (simp add: b bit_Uint32)
  next
    case 3
    then have "n div 8 = 2" "n mod 8 = n - 16" by presburger+
    then show ?thesis using 3 by (simp add: b bit_Uint32)
  next
    case 4
    then have "n div 8 = 3" "n mod 8 = n - 24" by presburger+
    then show ?thesis using 4 by (simp add: b bit_Uint32)
  next
    case 5
    then show ?thesis by (simp add: b bit_Uint32)
  qed
qed

lemma Uint32_flip:
  assumes "length bs = 4" "i < 4" "j < 8"
  shows "Uint32 (bs[i := bs ! i XOR push_bit j 1]) = Uint32 bs XOR push_bit (8 * (3 - i) + j) 1"
proof (rule bit_word_eqI)
  fix n assume n: "n < LENGTH(32)"
  have k: "(3 - n div 8 = i \<and> n mod 8 = j) \<longleftrightarrow> n = 8 * (3 - i) + j"
    using n assms(2,3) by auto
  have m: "n mod 8 < 8" by simp
  have l: "length (bs[i := bs ! i XOR push_bit j 1]) = 4" using assms(1) by simp
  show "bit (Uint32 (bs[i := bs ! i XOR push_bit j 1])) n =
      bit (Uint32 bs XOR push_bit (8 * (3 - i) + j) 1) n"
  proof (cases "3 - n div 8 = i")
    case True
    then show ?thesis
      using n k assms
      by (simp add: bit_Uint32_nth bit_xor_iff bit_one_bit32 bit_one_bit8)
  next
    case False
    then show ?thesis
      using n k assms
      by (simp add: bit_Uint32_nth bit_xor_iff bit_one_bit32)
  qed
qed

lemma bit_Uint32_byte:
  assumes "length bs = 4" "i < 4" "j < 8"
  shows "bit (Uint32 bs) (8 * (3 - i) + j) = bit (bs ! i) j"
proof -
  have "(8 * (3 - i) + j) div 8 = 3 - i" "(8 * (3 - i) + j) mod 8 = j" "3 - (3 - i) = i"
    "8 * (3 - i) + j < 32"
    using assms(2,3) by auto
  then show ?thesis by (simp add: bit_Uint32_nth [OF assms(1)])
qed


lemma Decode_truncated:
  assumes "8 \<le> length buf" "length buf < unat (Uint32 (take 4 buf)) + 8"
    "unat (Uint32 (take 4 buf)) + 8 < 2 ^ 32"
  shows "Decode buf = Err RecordTruncated"
proof -
  have "unat (8 :: 32 word) + unat (Uint32 (take 4 buf)) < 2 ^ LENGTH(32)"
    using assms(3) by simp
  then have "unat (8 + Uint32 (take 4 buf)) = unat (8 :: 32 word) + unat (Uint32 (take 4 buf))"
    by (simp only: unat_add_lem)
  then have "length buf < unat (8 + Uint32 (take 4 buf))"
    using assms(2) by simp
  then show ?thesis
    using assms(1) by (simp add: Decode_def Let_def)
qed

lemma flip_in_length:
  assumes "25 + length (Key r) + length (Value r) < 2 ^ 31" "i < 4" "j < 8"
    "\<not> bit (Encode r ! i) j"
  shows "Decode (flip_frame_bit (Encode r) i j) = Err RecordTruncated"
proof -
  let ?p = "payload_of r"
  let ?a = "PutUint32 (of_nat (length ?p))"
  let ?k = "8 * (3 - i) + j"
  have n: "length ?p + 8 < 2 ^ 31"
    using assms(1) by (simp add: length_payload_of)
  have k: "?k < 32" using assms(2,3) by simp
  have "(2::nat) ^ ?k \<le> 2 ^ 31"
    using k by (intro power_increasing) simp_all
  then have b: "length ?p + 2 ^ ?k + 8 < 2 ^ 32" using n by simp
  have ai: "Encode r ! i = ?a ! i"
    using assms(2) by (simp add: Encode_shape nth_append)
  have f: "flip_frame_bit (Encode r) i j =
      ?a[i := ?a ! i XOR push_bit j 1] @ PutUint32 (ChecksumIEEE ?p) @ ?p"
    unfolding flip_frame_bit_def ai unfolding Encode_shape
    using assms(2) by (simp add: list_update_append)
  have t: "take 4 (flip_frame_bit (Encode r) i j) = ?a[i := ?a ! i XOR push_bit j 1]"
    unfolding f by simp
  have "\<not> bit (Uint32 ?a) ?k"
    using assms(4) bit_Uint32_byte [of ?a i j] assms(2,3) by (simp add: ai)
  then have "unat (Uint32 ?a XOR push_bit ?k 1) = unat (Uint32 ?a) + 2 ^ ?k"
    using k by (intro unat_set_clear_bit)
  moreover have "unat (Uint32 ?a) = length ?p"
    using n by (simp add: Uint32_PutUint32 unat_of_nat32)
  ultimately have u: "unat (Uint32 (take 4 (flip_frame_bit (Encode r) i j))) = length ?p + 2 ^ ?k"
    unfolding t using Uint32_flip [of ?a i j] assms(2,3) by simp
  have l: "length (flip_frame_bit (Encode r) i j) = 8 + length ?p"
    by (simp add: flip_frame_bit_def length_Encode length_payload_of)
  show ?thesis
  proof (rule Decode_truncated)
    show "8 \<le> length (flip_frame_bit (Encode r) i j)" using l by simp
    show "length (flip_frame_bit (Encode r) i j)
        < unat (Uint32 (take 4 (flip_frame_bit (Encode r) i j))) + 8"
      unfolding u l by simp
    show "unat (Uint32 (take 4 (flip_frame_bit (Encode r) i j))) + 8 < 2 ^ 32"
      unfolding u using b by simp
  qed
qed

section \<open>Replay\<close>

lemma replay_prefix:
  "reads rd rs = Some tail \<Longrightarrow> accepts callback rs st = Some st' \<Longrightarrow>
   Replay_loop callback count rd st = Replay_loop callback (count + length rs) tail st'"
proof (induction rs arbitrary: rd st count)
  case Nil
  then show ?case by simp
next
  case (Cons r rs)
  from Cons.prems(1) obtain rd' where rr: "ReadRecord rd = Ok (r, rd')" and rest: "reads rd' rs = Some tail"
    by (auto split: result.splits prod.splits if_splits)
  from Cons.prems(2) obtain st1 where cb: "callback r st = (None, st1)" and acc: "accepts callback rs st1 = Some st'"
    by (auto split: prod.splits option.splits)
  have "Replay_loop callback count rd st = Replay_loop callback (count + 1) rd' st1"
    using rr cb by (subst Replay_loop.simps) simp
  also have "\<dots> = Replay_loop callback (count + 1 + length rs) tail st'"
    using Cons.IH [OF rest acc] .
  finally show ?case by simp
qed

lemma replay_tail:
  "ReadRecord tail = Err e \<Longrightarrow>
   Replay_loop callback count tail st =
     (if e = EOF then (Ok (), st)
      else if e = UnexpectedEOF then (if count = 0 then (Err e, st) else (Ok (), st))
      else (Err e, st))"
  by (subst Replay_loop.simps) simp

lemma PutUint32_not_Nil [simp]: "PutUint32 v \<noteq> []"
  by (simp add: PutUint32_def)

lemma payload_of_not_Nil [simp]: "payload_of r \<noteq> []"
  by (simp add: payload_of_def)

lemma ReadRecord_frame:
  assumes "25 + length (Key r) + length (Value r) < 2 ^ 32"
  shows "ReadRecord (Encode r @ rest) = Ok (r, rest)"
proof -
  let ?p = "payload_of r"
  have u: "unat (of_nat (length ?p) :: 32 word) = length ?p"
    by (rule unat_of_nat32) (use assms in \<open>simp add: length_payload_of\<close>)
  have "unat (of_nat (8 + length ?p) :: 32 word) = 8 + length ?p"
    by (rule unat_of_nat32) (use assms in \<open>simp add: length_payload_of\<close>)
  then have u8: "unat (8 + of_nat (length ?p) :: 32 word) = 8 + length ?p" by simp
  have r1: "ReadFull 4 (Encode r @ rest) =
      Ok (PutUint32 (of_nat (length ?p)), PutUint32 (ChecksumIEEE ?p) @ ?p @ rest)"
    by (simp add: ReadFull_def Encode_shape)
  have r2: "ReadFull 4 (PutUint32 (ChecksumIEEE ?p) @ ?p @ rest) =
      Ok (PutUint32 (ChecksumIEEE ?p), ?p @ rest)"
    by (simp add: ReadFull_def)
  have r3: "ReadFull (length ?p) (?p @ rest) = Ok (?p, rest)"
    by (simp add: ReadFull_def length_payload_of)
  have fb: "make_fullBuf (PutUint32 (of_nat (length ?p))) (PutUint32 (ChecksumIEEE ?p))
      (of_nat (length ?p)) ?p = Ok (Encode r)"
    by (simp add: make_fullBuf_def u8 Let_def Encode_shape)
  have d: "Decode (Encode r) = Ok r" using assms by (rule Decode_Encode)
  show ?thesis
    unfolding ReadRecord_def
    by (simp only: r1 r2 r3 u fb d Uint32_PutUint32 Let_def result.case prod.case) simp
qed

lemma ReadRecord_bad_checksum:
  assumes "25 + length (Key r) + length (Value r) < 2 ^ 32" "4 \<le> i" "i < 8" "j < 8"
  shows "ReadRecord (flip_frame_bit (Encode r) i j) = Err ChecksumMismatch"
proof -
  let ?p = "payload_of r"
  let ?c = "PutUint32 (ChecksumIEEE ?p)"
  let ?x = "?c ! (i - 4) XOR push_bit j 1"
  let ?c' = "?c[i - 4 := ?x]"
  have f: "flip_frame_bit (Encode r) i j = PutUint32 (of_nat (length ?p)) @ ?c' @ ?p"
    unfolding flip_frame_bit_def Encode_shape
    using assms(2,3) by (simp add: frame_checksum_at)
  have "?c' \<noteq> ?c"
  proof
    assume "?c' = ?c"
    then have "?c' ! (i - 4) = ?c ! (i - 4)" by simp
    then have "?x = ?c ! (i - 4)" using assms(3) by simp
    then show False using assms(4) flipped_byte_differs by blast
  qed
  then have "Uint32 ?c' \<noteq> Uint32 ?c"
    using Uint32_inj [of ?c' ?c] by auto
  then have d: "Uint32 ?c' \<noteq> ChecksumIEEE ?p"
    by (simp add: Uint32_PutUint32)
  have u: "unat (of_nat (length ?p) :: 32 word) = length ?p"
    by (rule unat_of_nat32) (use assms in \<open>simp add: length_payload_of\<close>)
  have "unat (of_nat (8 + length ?p) :: 32 word) = 8 + length ?p"
    by (rule unat_of_nat32) (use assms in \<open>simp add: length_payload_of\<close>)
  then have u8: "unat (8 + of_nat (length ?p) :: 32 word) = 8 + length ?p" by simp
  have c4: "length ?c' = 4" by simp
  have "?c' \<noteq> []" using c4 by auto
  then have r1: "ReadFull 4 (PutUint32 (of_nat (length ?p)) @ ?c' @ ?p) =
      Ok (PutUint32 (of_nat (length ?p)), ?c' @ ?p)"
    by (simp add: ReadFull_def)
  have r2: "ReadFull 4 (?c' @ ?p) = Ok (?c', ?p)"
    using \<open>?c' \<noteq> []\<close> by (simp add: ReadFull_def)
  have r3: "ReadFull (length ?p) ?p = Ok (?p, [])"
    by (simp add: ReadFull_def length_payload_of)
  have fb: "make_fullBuf (PutUint32 (of_nat (length ?p))) ?c' (of_nat (length ?p)) ?p =
      Ok (PutUint32 (of_nat (length ?p)) @ ?c' @ ?p)"
    by (simp add: make_fullBuf_def u8 Let_def)
  have "8 + length ?p < 2 ^ 32"
    using assms(1) by (simp add: length_payload_of)
  then have "Decode (PutUint32 (of_nat (length ?p)) @ ?c' @ ?p) =
     (if Uint32 ?c' \<noteq> ChecksumIEEE ?p then Err ChecksumMismatch
      else decode_fields (PutUint32 (of_nat (length ?p)) @ ?c' @ ?p))"
    by (intro Decode_header) simp
  then have dd: "Decode (PutUint32 (of_nat (length ?p)) @ ?c' @ ?p) = Err ChecksumMismatch"
    using d by simp
  show ?thesis
    unfolding ReadRecord_def f
    using d by (simp only: r1 r2 r3 u fb dd Uint32_PutUint32 Let_def result.case prod.case) simp
qed

lemma ReadRecord_mismatch:
  assumes "length lb = 4" "length cb = 4" "unat (Uint32 lb) = length p" "8 + length p < 2 ^ 32"
    "Uint32 cb \<noteq> ChecksumIEEE p"
  shows "ReadRecord (lb @ cb @ p @ rest) = Err ChecksumMismatch"
proof -
  have "of_nat (unat (Uint32 lb)) = Uint32 lb" by simp
  then have n: "Uint32 lb = of_nat (length p)" using assms(3) by simp
  then have lb: "lb = PutUint32 (of_nat (length p))"
    using PutUint32_Uint32 [OF assms(1)] by simp
  have "unat (of_nat (8 + length p) :: 32 word) = 8 + length p"
    by (rule unat_of_nat32) (use assms(4) in simp)
  then have u8: "unat (8 + Uint32 lb) = 8 + length p" by (simp add: n)
  have ne: "lb \<noteq> []" "cb \<noteq> []" using assms(1,2) by auto
  have r1: "ReadFull 4 (lb @ cb @ p @ rest) = Ok (lb, cb @ p @ rest)"
    using assms(1) ne by (simp add: ReadFull_def)
  have r2: "ReadFull 4 (cb @ p @ rest) = Ok (cb, p @ rest)"
    using assms(2) ne by (simp add: ReadFull_def)
  have r3: "ReadFull (unat (Uint32 lb)) (p @ rest) = Ok (p, rest)"
    unfolding assms(3) by (cases "p = []") (simp_all add: ReadFull_def)
  have fb: "make_fullBuf lb cb (Uint32 lb) p = Ok (lb @ cb @ p)"
    by (simp add: make_fullBuf_def u8 Let_def)
  have "Decode (PutUint32 (of_nat (length p)) @ cb @ p) =
     (if Uint32 cb \<noteq> ChecksumIEEE p then Err ChecksumMismatch
      else decode_fields (PutUint32 (of_nat (length p)) @ cb @ p))"
    using assms(2,4) by (intro Decode_header)
  then have dd: "Decode (lb @ cb @ p) = Err ChecksumMismatch"
    using assms(5) lb by simp
  show ?thesis
    unfolding ReadRecord_def
    using assms(5) by (simp only: r1 r2 r3 fb dd Let_def result.case prod.case) simp
qed

lemma Encode_rec1_len_byte: "Encode rec1 ! 3 = 19"
  by (simp add: Encode_shape length_payload_of rec1_def nth_append PutUint32_def)

section \<open>Claims on the codec and the reader\<close>

text \<open>
  C4, as stated, fails: the record \<open>huge\<close> has a key and a value of fewer than \<open>2^32\<close>
  bytes each, its payload length \<open>2^33 - 8\<close> is written as the \<open>uint32\<close> \<open>0xFFFFFFF8\<close>, and
  \<open>Decode\<close> of its encoding panics on \<open>buf[8:0]\<close>.
\<close>

theorem huge_record_does_not_round_trip:
  "length (Key huge) < 2 ^ 32 \<and> length (Value huge) < 2 ^ 32 \<and> Decode (Encode huge) = Panic"
proof -
  have "17 + length (Key huge) + length (Value huge) = 2 ^ 33 - 8"
    by (simp add: huge_def)
  then have "Decode (Encode huge) = Panic" by (rule Encode_huge)
  then show ?thesis by (simp add: huge_def)
qed

text \<open>
  C4, amended. For every record whose frame is shorter than \<open>2^32\<close> bytes
  (\<open>25 + len(Key) + len(Value) < 2^32\<close>), of any type byte, sequence number, key and
  value, empty ones included, \<open>Decode(rec.Encode())\<close> succeeds and returns the record.
\<close>

theorem round_trip:
  "25 + length (Key r) + length (Value r) < 2 ^ 32 \<Longrightarrow> Decode (Encode r) = Ok r"
proof -
  assume b: "25 + length (Key r) + length (Value r) < 2 ^ 32"
  have "Encode r =
      PutUint32 (of_nat (17 + length (Key r) + length (Value r))) @
      PutUint32 (ChecksumIEEE (payload_of r)) @ payload_of r"
    by (simp add: Encode_def)
  then show ?thesis
    using Decode_frame [OF b, of "ChecksumIEEE (payload_of r)"] by simp
qed

theorem round_trip_witness:
  "25 + length (Key rec1) + length (Value rec1) < (2::nat) ^ 32 \<and> Decode (Encode rec1) = Ok rec1 \<and>
   25 + length (Key rec0) + length (Value rec0) < (2::nat) ^ 32 \<and> Decode (Encode rec0) = Ok rec0"
proof -
  have a: "25 + length (Key rec1) + length (Value rec1) < (2::nat) ^ 32" by (simp add: rec1_def)
  have b: "25 + length (Key rec0) + length (Value rec0) < (2::nat) ^ 32" by (simp add: rec0_def)
  show ?thesis using a b round_trip [OF a] round_trip [OF b] by simp
qed

text \<open>
  C5, as stated, fails: bit 2 of the last byte of \<open>payload_len\<close> in the frame of \<open>rec1\<close>
  (payload length 19) is clear; with that bit flipped the length reads 23, and \<open>Decode\<close>
  fails with the record-truncated error, not with the checksum error.
\<close>

theorem length_flip_is_truncation:
  "Decode (flip_frame_bit (Encode rec1) 3 2) = Err RecordTruncated \<and>
   Decode (flip_frame_bit (Encode rec1) 3 2) \<noteq> Err ChecksumMismatch"
proof -
  have "25 + length (Key rec1) + length (Value rec1) < (2::nat) ^ 31" by (simp add: rec1_def)
  moreover have "\<not> bit (Encode rec1 ! 3) 2"
    by (simp add: Encode_rec1_len_byte bit_numeral_simps)
  ultimately have "Decode (flip_frame_bit (Encode rec1) 3 2) = Err RecordTruncated"
    by (intro flip_in_length) simp_all
  then show ?thesis by simp
qed

text \<open>
  C5, amended. For every record whose frame is shorter than \<open>2^32\<close> bytes, flipping any
  single bit of the frame within the checksum field or the payload makes \<open>Decode\<close> fail
  with the checksum error. Flipping a clear bit of \<open>payload_len\<close> (frame shorter than
  \<open>2^31\<close> bytes) makes \<open>Decode\<close> fail with the record-truncated error.
\<close>

theorem single_bit_flip:
  "25 + length (Key r) + length (Value r) < 2 ^ 32 \<and> j < 8 \<longrightarrow>
     (4 \<le> i \<and> i < length (Encode r) \<longrightarrow>
        Decode (flip_frame_bit (Encode r) i j) = Err ChecksumMismatch) \<and>
     (i < 4 \<and> \<not> bit (Encode r ! i) j \<and> 25 + length (Key r) + length (Value r) < 2 ^ 31 \<longrightarrow>
        Decode (flip_frame_bit (Encode r) i j) = Err RecordTruncated)"
proof (intro impI conjI)
  assume h: "25 + length (Key r) + length (Value r) < 2 ^ 32 \<and> j < 8"
    and i: "4 \<le> i \<and> i < length (Encode r)"
  show "Decode (flip_frame_bit (Encode r) i j) = Err ChecksumMismatch"
  proof (cases "i < 8")
    case True
    then show ?thesis using h i flip_in_checksum [of r i j] by simp
  next
    case False
    then show ?thesis using h i flip_in_payload [of r i j] by simp
  qed
next
  assume h: "25 + length (Key r) + length (Value r) < 2 ^ 32 \<and> j < 8"
    and i: "i < 4 \<and> \<not> bit (Encode r ! i) j \<and> 25 + length (Key r) + length (Value r) < 2 ^ 31"
  show "Decode (flip_frame_bit (Encode r) i j) = Err RecordTruncated"
    using h i flip_in_length [of r i j] by simp
qed

theorem single_bit_flip_witness:
  "25 + length (Key rec1) + length (Value rec1) < (2::nat) ^ 31 \<and> (2::nat) < 8 \<and>
   (10::nat) < length (Encode rec1) \<and> \<not> bit (Encode rec1 ! 3) 2 \<and>
   Decode (flip_frame_bit (Encode rec1) 10 2) = Err ChecksumMismatch \<and>
   Decode (flip_frame_bit (Encode rec1) 4 2) = Err ChecksumMismatch \<and>
   Decode (flip_frame_bit (Encode rec1) 3 2) = Err RecordTruncated"
proof -
  have a: "25 + length (Key rec1) + length (Value rec1) < (2::nat) ^ 31"
    "25 + length (Key rec1) + length (Value rec1) < (2::nat) ^ 32"
    by (simp_all add: rec1_def)
  have l: "length (Encode rec1) = 27" by (simp add: length_Encode rec1_def)
  have b: "\<not> bit (Encode rec1 ! 3) 2"
    by (simp add: Encode_rec1_len_byte bit_numeral_simps)
  show ?thesis
    using a l b single_bit_flip [of rec1 2 10] single_bit_flip [of rec1 2 4]
      single_bit_flip [of rec1 2 3]
    by simp
qed

text \<open>
  What \<open>Replay\<close> does with the result of the read that follows the records \<open>rs\<close>, each
  accepted by the callback: on \<open>io.ErrUnexpectedEOF\<close> it returns \<open>nil\<close> if \<open>rs\<close> is not empty
  and that error if it is; on a checksum mismatch it returns the checksum error, and a
  frame that is wholly in the file (payload shorter than \<open>2^32 - 8\<close> bytes) and whose
  stored checksum is not the checksum of its payload is such a mismatch.
\<close>

lemma replay_after_records:
  "reads rd rs = Some tail \<and> accepts callback rs st = Some st' \<longrightarrow>
     (ReadRecord tail = Err UnexpectedEOF \<and> rs \<noteq> [] \<longrightarrow> Replay callback rd st = (Ok (), st')) \<and>
     (ReadRecord tail = Err UnexpectedEOF \<and> rs = [] \<longrightarrow> Replay callback rd st = (Err UnexpectedEOF, st')) \<and>
     (ReadRecord tail = Err ChecksumMismatch \<longrightarrow> Replay callback rd st = (Err ChecksumMismatch, st')) \<and>
     (tail = lb @ cb @ p @ rest \<and> length lb = 4 \<and> length cb = 4 \<and> unat (Uint32 lb) = length p \<and>
      8 + length p < 2 ^ 32 \<and> Uint32 cb \<noteq> ChecksumIEEE p
        \<longrightarrow> Replay callback rd st = (Err ChecksumMismatch, st'))"
proof (intro impI)
  assume "reads rd rs = Some tail \<and> accepts callback rs st = Some st'"
  then have p: "Replay callback rd st = Replay_loop callback (length rs) tail st'"
    using replay_prefix [of rd rs tail callback st st' 0] by (simp add: Replay_def)
  have m: "tail = lb @ cb @ p @ rest \<and> length lb = 4 \<and> length cb = 4 \<and> unat (Uint32 lb) = length p \<and>
      8 + length p < 2 ^ 32 \<and> Uint32 cb \<noteq> ChecksumIEEE p \<longrightarrow> ReadRecord tail = Err ChecksumMismatch"
    using ReadRecord_mismatch [of lb cb p rest] by simp
  show "(ReadRecord tail = Err UnexpectedEOF \<and> rs \<noteq> [] \<longrightarrow> Replay callback rd st = (Ok (), st')) \<and>
     (ReadRecord tail = Err UnexpectedEOF \<and> rs = [] \<longrightarrow> Replay callback rd st = (Err UnexpectedEOF, st')) \<and>
     (ReadRecord tail = Err ChecksumMismatch \<longrightarrow> Replay callback rd st = (Err ChecksumMismatch, st')) \<and>
     (tail = lb @ cb @ p @ rest \<and> length lb = 4 \<and> length cb = 4 \<and> unat (Uint32 lb) = length p \<and>
      8 + length p < 2 ^ 32 \<and> Uint32 cb \<noteq> ChecksumIEEE p
        \<longrightarrow> Replay callback rd st = (Err ChecksumMismatch, st'))"
    unfolding p using m by (auto simp: replay_tail)
qed

lemma replay_after_records_examples:
  "reads (Encode rec1 @ [0, 0, 0]) [rec1] = Some [0, 0, 0] \<and>
   accepts collect [rec1] [] = Some [rec1] \<and>
   ReadRecord [0, 0, 0] = Err UnexpectedEOF \<and>
   Replay collect (Encode rec1 @ [0, 0, 0]) [] = (Ok (), [rec1]) \<and>
   Replay collect [0, 0, 0] [] = (Err UnexpectedEOF, []) \<and>
   ReadRecord (flip_frame_bit (Encode rec1) 4 0) = Err ChecksumMismatch \<and>
   Replay collect (Encode rec1 @ flip_frame_bit (Encode rec1) 4 0) [] = (Err ChecksumMismatch, [rec1]) \<and>
   Uint32 [0, 0, 0, 1] \<noteq> ChecksumIEEE [] \<and>
   Replay collect (Encode rec1 @ [0, 0, 0, 0] @ [0, 0, 0, 1] @ [] @ [7]) [] = (Err ChecksumMismatch, [rec1])"
proof -
  have s: "25 + length (Key rec1) + length (Value rec1) < (2::nat) ^ 32" by (simp add: rec1_def)
  have r: "reads (Encode rec1 @ [0, 0, 0]) [rec1] = Some [0, 0, 0]"
    "reads (Encode rec1 @ flip_frame_bit (Encode rec1) 4 0) [rec1] = Some (flip_frame_bit (Encode rec1) 4 0)"
    "reads [0, 0, 0] [] = Some [0, 0, 0]"
    "reads (Encode rec1 @ [0, 0, 0, 0] @ [0, 0, 0, 1] @ [] @ [7]) [rec1] =
       Some ([0, 0, 0, 0] @ [0, 0, 0, 1] @ [] @ [7])"
    by (simp_all add: ReadRecord_frame [OF s])
  have a: "accepts collect [rec1] [] = Some [rec1]" "accepts collect [] [] = Some []"
    by (simp_all add: collect_def)
  have t: "ReadRecord [0, 0, 0] = Err UnexpectedEOF"
    by (simp add: ReadRecord_def ReadFull_def)
  have c: "ReadRecord (flip_frame_bit (Encode rec1) 4 0) = Err ChecksumMismatch"
    using s by (intro ReadRecord_bad_checksum) simp_all
  have m: "unat (Uint32 [0, 0, 0, 0]) = length ([] :: byte list)"
    "Uint32 [0, 0, 0, 1] \<noteq> ChecksumIEEE []"
    by (simp_all add: Uint32_def ChecksumIEEE_def)
  note w1 = replay_after_records [of "Encode rec1 @ [0, 0, 0]" "[rec1]" "[0, 0, 0]" collect "[]"
      "[rec1]" "[]" "[]" "[]" "[]"]
  note w2 = replay_after_records [of "[0, 0, 0]" "[]" "[0, 0, 0]" collect "[]" "[]" "[]" "[]" "[]" "[]"]
  note w3 = replay_after_records [of "Encode rec1 @ flip_frame_bit (Encode rec1) 4 0" "[rec1]"
      "flip_frame_bit (Encode rec1) 4 0" collect "[]" "[rec1]" "[]" "[]" "[]" "[]"]
  note w4 = replay_after_records [of "Encode rec1 @ [0, 0, 0, 0] @ [0, 0, 0, 1] @ [] @ [7]" "[rec1]"
      "[0, 0, 0, 0] @ [0, 0, 0, 1] @ [] @ [7]" collect "[]" "[rec1]" "[0, 0, 0, 0]" "[0, 0, 0, 1]"
      "[]" "[7]"]
  have e1: "Replay collect (Encode rec1 @ [0, 0, 0]) [] = (Ok (), [rec1])"
    using w1 r(1) a(1) t by simp
  have e2: "Replay collect [0, 0, 0] [] = (Err UnexpectedEOF, [])"
    using w2 r(3) a(2) t by simp
  have e3: "Replay collect (Encode rec1 @ flip_frame_bit (Encode rec1) 4 0) [] =
      (Err ChecksumMismatch, [rec1])"
    using w3 r(2) a(1) c by simp
  have e4: "Replay collect (Encode rec1 @ [0, 0, 0, 0] @ [0, 0, 0, 1] @ [] @ [7]) [] =
      (Err ChecksumMismatch, [rec1])"
    using w4 r(4) a(1) m by simp
  show ?thesis
    using r(1) a(1) t c m(2) e1 e2 e3 e4 by simp
qed

text \<open>
  C6, at its failing inputs. A file that ends right after the 4-byte length of its
  first frame, or right after the 8-byte header of a first frame whose payload is not
  empty, delivers no record; \<open>io.ReadFull\<close> reads no byte for the next field and returns
  \<open>io.EOF\<close>, \<open>ReadRecord\<close> returns it as it is, and \<open>Replay\<close> returns \<open>nil\<close>, where the claim
  says the unexpected-end-of-file error. The file one byte shorter gets that error.
\<close>

theorem replay_torn_at_field_boundary:
  "ReadRecord [0, 0, 0, 5] = Err EOF \<and>
   Replay collect [0, 0, 0, 5] [] = (Ok (), []) \<and>
   ReadRecord [0, 0, 0, 5, 0, 0, 0, 0] = Err EOF \<and>
   Replay collect [0, 0, 0, 5, 0, 0, 0, 0] [] = (Ok (), []) \<and>
   Replay collect [0, 0, 0] [] = (Err UnexpectedEOF, [])"
proof -
  have a: "ReadRecord [0, 0, 0, 5] = Err EOF"
    by (simp add: ReadRecord_def ReadFull_def)
  have b: "ReadRecord [0, 0, 0, 5, 0, 0, 0, 0] = Err EOF"
    by (simp add: ReadRecord_def ReadFull_def Uint32_def)
  have c: "ReadRecord [0, 0, 0] = Err UnexpectedEOF"
    by (simp add: ReadRecord_def ReadFull_def)
  have "Replay collect [0, 0, 0, 5] [] = (Ok (), [])"
    unfolding Replay_def using a by (subst Replay_loop.simps) simp
  moreover have "Replay collect [0, 0, 0, 5, 0, 0, 0, 0] [] = (Ok (), [])"
    unfolding Replay_def using b by (subst Replay_loop.simps) simp
  moreover have "Replay collect [0, 0, 0] [] = (Err UnexpectedEOF, [])"
    unfolding Replay_def using c by (subst Replay_loop.simps) simp
  ultimately show ?thesis using a b by simp
qed

text \<open>
  C7, at its failing inputs. \<open>Decode\<close> of eight zero bytes passes both length checks
  (payload length 0, checksum 0 of the empty payload) and panics reading \<open>buf[8]\<close>; with
  a length field of \<open>0xFFFFFFFB\<close> the sum \<open>8+payloadLen\<close> wraps to 3 and \<open>buf[8:3]\<close> panics.
  \<open>Replay\<close> of a file of eight zero bytes panics likewise.
\<close>

theorem Decode_panics:
  "Decode [0, 0, 0, 0, 0, 0, 0, 0] = Panic \<and>
   Decode [0xFF, 0xFF, 0xFF, 0xFB, 0, 0, 0, 0] = Panic \<and>
   fst (Replay collect [0, 0, 0, 0, 0, 0, 0, 0] []) = Panic"
proof -
  have z: "Decode [0, 0, 0, 0, 0, 0, 0, 0] = Panic" by (rule Decode_zeros)
  have "ReadRecord [0, 0, 0, 0, 0, 0, 0, 0] = Panic"
    by (simp add: ReadRecord_def ReadFull_def Uint32_def ChecksumIEEE_def make_fullBuf_def z)
  then have "fst (Replay collect [0, 0, 0, 0, 0, 0, 0, 0] []) = Panic"
    unfolding Replay_def by (subst Replay_loop.simps) simp
  then show ?thesis using z Decode_wrap by simp
qed

end
